theory Spec2Isabelle
  imports
    Complex_Main
    "HOL-Library.AList"
    "HOL-Library.FSet"
    "HOL-Library.Char_ord"
    "HOL-Library.List_Lexorder"
    "HOL-Library.Product_Lexorder"
    "HOL-Library.Multiset"
begin

section \<open>The flood-risk router of \<^verbatim>\<open>comprehensive_route_calculator.py\<close>\<close>

text \<open>
  The theory embeds the routing core of the class \<^verbatim>\<open>ComprehensiveFloodRiskRouter\<close>:
  \<^verbatim>\<open>create_enhanced_graph\<close>, \<^verbatim>\<open>find_closest_nodes\<close>, \<^verbatim>\<open>dijkstra_shortest_path\<close>,
  \<^verbatim>\<open>_get_path_details\<close> and \<^verbatim>\<open>find_optimal_route\<close>.

  Conventions of the embedding:
  \<^item> Python floats are read as real numbers (\<^typ>\<open>real\<close>); rounding, NaN and overflow are
    not part of the model. The one infinite value the code uses, \<^verbatim>\<open>float('inf')\<close>, is the
    constructor \<open>PInf\<close> of the type \<open>pyfloat\<close>.
  \<^item> An exception is a value \<open>Inl e\<close> of the sum type; a normal return is \<open>Inr v\<close>.
  \<^item> A dict whose order matters is an association list; \<^verbatim>\<open>self\<close> is a record that is
    passed in and, where the method assigns to it, returned.
  \<^item> Printing is left out.
\<close>

subsection \<open>Data\<close>

type_synonym node = string

datatype error = ValueError | IndexError | KeyError | TypeError | AttributeError | NetworkXError

datatype pyfloat = Fin real | PInf

text \<open>The attribute dict that \<^verbatim>\<open>create_enhanced_graph\<close> attaches to every edge.\<close>

record edge_data =
  weight :: real
  segment_id :: string
  distance :: real
  safety_prob :: real

text \<open>
  A \<^verbatim>\<open>networkx.Graph\<close> is its adjacency dict of dicts: every node is a key, in the order
  of insertion, and is mapped to the dict of its neighbours, again in the order of
  insertion.
\<close>

type_synonym nxgraph = "(node \<times> (node \<times> edge_data) list) list"

text \<open>One row of \<^verbatim>\<open>graph_data\<close>; \<open>road_segment_id\<close> is the row's id after \<^verbatim>\<open>str\<close>.\<close>

record edge_row =
  road_segment_id :: string
  from_node :: node
  to_node :: node
  cost :: real

text \<open>
  The fields of \<^verbatim>\<open>self\<close> the routing methods read or write, as they are after
  \<^verbatim>\<open>load_data\<close> and \<^verbatim>\<open>analyze_network_structure\<close> have run.
\<close>

record router =
  safety_weights :: "string \<rightharpoonup> real"
  graph_data :: "edge_row list"
  connected_components :: "node fset list"
  segment_id_map :: "string \<rightharpoonup> string"
  graph :: "nxgraph option"

text \<open>The values found in the dicts the methods return.\<close>

record segment =
  seg_id :: string
  seg_from :: node
  seg_to :: node
  seg_distance :: real
  seg_safety_prob :: real

datatype pyval =
    PyBool bool
  | PyStr string
  | PyInt int
  | PyFloat pyfloat
  | PyPath "node list"
  | PySegments "segment list"
  | PyDict "(string \<times> pyval) list"

type_synonym pydict = "(string \<times> pyval) list"

subsection \<open>The operations of \<^verbatim>\<open>networkx.Graph\<close> the router uses\<close>

definition nx_nodes :: "nxgraph \<Rightarrow> node list" where
  "nx_nodes g = map fst g"

text \<open>\<^verbatim>\<open>n in G\<close>\<close>

definition nx_contains :: "nxgraph \<Rightarrow> node \<Rightarrow> bool" where
  "nx_contains g n = (map_of g n \<noteq> None)"

text \<open>\<^verbatim>\<open>G.neighbors(n)\<close> raises when \<open>n\<close> is not a node.\<close>

definition nx_neighbors :: "nxgraph \<Rightarrow> node \<Rightarrow> error + node list" where
  "nx_neighbors g n =
     (case map_of g n of None \<Rightarrow> Inl NetworkXError | Some nbrs \<Rightarrow> Inr (map fst nbrs))"

text \<open>\<^verbatim>\<open>G[u][v]\<close>; \<open>None\<close> stands for the \<^verbatim>\<open>KeyError\<close> of a missing key.\<close>

definition nx_get_edge :: "nxgraph \<Rightarrow> node \<Rightarrow> node \<Rightarrow> edge_data option" where
  "nx_get_edge g u v = (case map_of g u of None \<Rightarrow> None | Some nbrs \<Rightarrow> map_of nbrs v)"

text \<open>\<^verbatim>\<open>G.has_edge(u, v)\<close> never raises.\<close>

definition nx_has_edge :: "nxgraph \<Rightarrow> node \<Rightarrow> node \<Rightarrow> bool" where
  "nx_has_edge g u v = (case map_of g u of None \<Rightarrow> False | Some nbrs \<Rightarrow> map_of nbrs v \<noteq> None)"

definition nx_add_node :: "nxgraph \<Rightarrow> node \<Rightarrow> nxgraph" where
  "nx_add_node g n = (if map_of g n = None then g @ [(n, [])] else g)"

definition nx_set_adj :: "nxgraph \<Rightarrow> node \<Rightarrow> node \<Rightarrow> edge_data \<Rightarrow> nxgraph" where
  "nx_set_adj g u v d =
     AList.update u (AList.update v d (case map_of g u of None \<Rightarrow> [] | Some nbrs \<Rightarrow> nbrs)) g"

text \<open>
  \<^verbatim>\<open>G.add_edge(u, v, **attr)\<close>: both endpoints become nodes when they are not yet, and
  the attributes are stored under \<open>u\<close>, \<open>v\<close> and under \<open>v\<close>, \<open>u\<close>. The router passes all
  four attributes at every call, so an edge that was there before is overwritten.
\<close>

definition nx_add_edge :: "nxgraph \<Rightarrow> node \<Rightarrow> node \<Rightarrow> edge_data \<Rightarrow> nxgraph" where
  "nx_add_edge g u v d = nx_set_adj (nx_set_adj (nx_add_node (nx_add_node g u) v) u v d) v u d"

subsection \<open>\<^verbatim>\<open>create_enhanced_graph\<close>\<close>

text \<open>\<^verbatim>\<open>self.safety_weights.get(segment_id, 0.5)\<close>\<close>

definition safety_get :: "(string \<rightharpoonup> real) \<Rightarrow> string \<Rightarrow> real" where
  "safety_get sw sid = (case sw sid of None \<Rightarrow> 0.5 | Some p \<Rightarrow> p)"

text \<open>\<^verbatim>\<open>max(valid_components, key=len)\<close>: the first component of maximal size.\<close>

fun max_by_len :: "node fset \<Rightarrow> node fset list \<Rightarrow> node fset" where
  "max_by_len best [] = best"
| "max_by_len best (c # cs) = max_by_len (if fcard best < fcard c then c else best) cs"

text \<open>The body of the loop over the rows of \<^verbatim>\<open>graph_data\<close>.\<close>

definition add_row :: "(string \<rightharpoonup> real) \<Rightarrow> node fset \<Rightarrow> string \<Rightarrow> nxgraph \<Rightarrow> edge_row \<Rightarrow> nxgraph" where
  "add_row sw largest_valid cost_function g row =
     (let segment_id = road_segment_id row;
          from_node = from_node row;
          to_node = to_node row;
          distance = cost row
      in if from_node |\<notin>| largest_valid \<or> to_node |\<notin>| largest_valid then g
         else
           let weight =
                (if cost_function = ''distance'' then distance
                 else if cost_function = ''safety'' then
                   (let safety_prob = safety_get sw segment_id
                    in (1.0 - safety_prob) * 1000)
                 else if cost_function = ''combined'' then
                   (let safety_prob = safety_get sw segment_id;
                        safety_cost = (1.0 - safety_prob) * 1000
                    in distance + safety_cost)
                 else if cost_function = ''flood_risk'' then
                   (let safety_prob = safety_get sw segment_id;
                        flood_risk = 1.0 - safety_prob
                    in flood_risk * 10000 + distance * 0.1)
                 else distance)
           in nx_add_edge g from_node to_node
                \<lparr>weight = weight, segment_id = segment_id, distance = distance,
                 safety_prob = safety_get sw segment_id\<rparr>)"

text \<open>
  The method assigns the new graph to \<^verbatim>\<open>self.graph\<close> (and returns it): the model returns
  the updated router.
\<close>

definition create_enhanced_graph :: "router \<Rightarrow> string \<Rightarrow> int \<Rightarrow> router" where
  "create_enhanced_graph r cost_function min_component_size =
     (let valid_components =
            filter (\<lambda>comp. min_component_size \<le> int (fcard comp)) (connected_components r)
      in case valid_components of
           [] \<Rightarrow> r\<lparr>graph := Some []\<rparr>
         | c # cs \<Rightarrow>
             (let largest_valid = max_by_len c cs
              in r\<lparr>graph := Some (foldl (add_row (safety_weights r) largest_valid cost_function)
                                    [] (graph_data r))\<rparr>))"

subsection \<open>\<^verbatim>\<open>find_closest_nodes\<close>\<close>

text \<open>\<^verbatim>\<open>s.split(',')\<close>\<close>

fun split_comma :: "string \<Rightarrow> string list" where
  "split_comma [] = [[]]"
| "split_comma (c # cs) =
     (if c = CHR '','' then [] # split_comma cs
      else (case split_comma cs of [] \<Rightarrow> [[c]] | w # ws \<Rightarrow> (c # w) # ws))"

text \<open>
  \<^verbatim>\<open>x, y = map(float, s.split(','))\<close>. Python's \<^verbatim>\<open>float\<close> is the parameter \<open>to_float\<close>,
  with \<open>None\<close> where \<^verbatim>\<open>float\<close> raises. Every failure of the line is a \<^verbatim>\<open>ValueError\<close>: a
  part that \<^verbatim>\<open>float\<close> rejects, and fewer or more than two parts at the unpacking.
\<close>

definition parse_xy :: "(string \<Rightarrow> real option) \<Rightarrow> string \<Rightarrow> error + real \<times> real" where
  "parse_xy to_float s =
     (case split_comma s of
        [a, b] \<Rightarrow>
          (case to_float a of
             None \<Rightarrow> Inl ValueError
           | Some x \<Rightarrow> (case to_float b of None \<Rightarrow> Inl ValueError | Some y \<Rightarrow> Inr (x, y)))
      | _ \<Rightarrow> Inl ValueError)"

text \<open>The loop over \<^verbatim>\<open>self.graph.nodes()\<close> that fills the list \<^verbatim>\<open>distances\<close>.\<close>

fun node_distances ::
  "(string \<Rightarrow> real option) \<Rightarrow> real \<Rightarrow> real \<Rightarrow> node list \<Rightarrow> error + (node \<times> real) list" where
  "node_distances to_float target_x target_y [] = Inr []"
| "node_distances to_float target_x target_y (n # ns) =
     (case parse_xy to_float n of
        Inl e \<Rightarrow> Inl e
      | Inr (node_x, node_y) \<Rightarrow>
          (case node_distances to_float target_x target_y ns of
             Inl e \<Rightarrow> Inl e
           | Inr ds \<Rightarrow> Inr ((n, sqrt ((target_x - node_x)\<^sup>2 + (target_y - node_y)\<^sup>2)) # ds)))"

text \<open>\<^verbatim>\<open>xs[:k]\<close>, also for a negative \<open>k\<close>.\<close>

definition py_prefix :: "int \<Rightarrow> 'a list \<Rightarrow> 'a list" where
  "py_prefix k xs = (if 0 \<le> k then take (nat k) xs else take (length xs - nat (- k)) xs)"

text \<open>\<^verbatim>\<open>list.sort\<close> is stable, as \<^const>\<open>sort_key\<close> is.\<close>

definition find_closest_nodes ::
  "(string \<Rightarrow> real option) \<Rightarrow> router \<Rightarrow> string \<Rightarrow> int \<Rightarrow> error + (node \<times> real) list" where
  "find_closest_nodes to_float r target_coords num_candidates =
     (case parse_xy to_float target_coords of
        Inl e \<Rightarrow> Inl e
      | Inr (target_x, target_y) \<Rightarrow>
          (case graph r of
             None \<Rightarrow> Inl AttributeError
           | Some g \<Rightarrow>
               (case node_distances to_float target_x target_y (nx_nodes g) of
                  Inl e \<Rightarrow> Inl e
                | Inr ds \<Rightarrow> Inr (py_prefix num_candidates (sort_key snd ds)))))"

subsection \<open>\<^verbatim>\<open>_get_path_details\<close>\<close>

text \<open>\<^verbatim>\<open>np.mean\<close>, \<^verbatim>\<open>np.std\<close> (the population standard deviation), \<^verbatim>\<open>min\<close> and \<^verbatim>\<open>max\<close>.\<close>

definition np_mean :: "real list \<Rightarrow> real" where
  "np_mean xs = sum_list xs / real (length xs)"

definition np_std :: "real list \<Rightarrow> real" where
  "np_std xs = sqrt (np_mean (map (\<lambda>x. \<bar>x - np_mean xs\<bar>\<^sup>2) xs))"

fun py_min :: "real \<Rightarrow> real list \<Rightarrow> real" where
  "py_min m [] = m"
| "py_min m (x # xs) = py_min (if x < m then x else m) xs"

fun py_max :: "real \<Rightarrow> real list \<Rightarrow> real" where
  "py_max m [] = m"
| "py_max m (x # xs) = py_max (if m < x then x else m) xs"

text \<open>
  One round of the loop over \<^verbatim>\<open>range(len(path) - 1)\<close>. The test \<^verbatim>\<open>has_edge\<close> and the
  lookup \<^verbatim>\<open>self.graph[current][next_node]\<close> are one \<open>case\<close>: the lookup finds an entry
  exactly when \<^verbatim>\<open>has_edge\<close> holds (lemma \<open>nx_has_edge_iff\<close> below).
\<close>

definition path_step ::
  "nxgraph \<Rightarrow> (string \<rightharpoonup> string) \<Rightarrow> node list \<Rightarrow>
   segment list \<times> real \<times> real list \<Rightarrow> nat \<Rightarrow> segment list \<times> real \<times> real list" where
  "path_step g sid_map path acc i =
     (case acc of (segments, total_distance, safety_probs) \<Rightarrow>
        (let current = path ! i;
             next_node = path ! (i + 1)
         in case nx_get_edge g current next_node of
              None \<Rightarrow> acc
            | Some edge_data \<Rightarrow>
                (let sid = (case sid_map (segment_id edge_data) of
                              None \<Rightarrow> segment_id edge_data | Some hub \<Rightarrow> hub)
                 in (segments @ [\<lparr>seg_id = sid, seg_from = current, seg_to = next_node,
                                   seg_distance = distance edge_data,
                                   seg_safety_prob = safety_prob edge_data\<rparr>],
                     total_distance + distance edge_data,
                     safety_probs @ [safety_prob edge_data]))))"

text \<open>The literal \<^verbatim>\<open>0\<close> of the defaults is the number \<open>Fin 0\<close>: Python's \<^verbatim>\<open>0\<close> and \<^verbatim>\<open>0.0\<close> are equal.\<close>

definition get_path_details :: "router \<Rightarrow> node list \<Rightarrow> error + pydict" where
  "get_path_details r path =
     (if length path < 2 then
        Inr [(''segments'', PySegments []), (''total_distance'', PyFloat (Fin 0)),
             (''avg_safety'', PyFloat (Fin 0))]
      else
        (case graph r of
           None \<Rightarrow> Inl AttributeError
         | Some g \<Rightarrow>
             (case foldl (path_step g (segment_id_map r) path) ([], 0, []) [0..<length path - 1] of
                (segments, total_distance, safety_probs) \<Rightarrow>
                  Inr [(''segments'', PySegments segments),
                       (''total_distance'', PyFloat (Fin total_distance)),
                       (''avg_safety'',
                          PyFloat (Fin (if safety_probs \<noteq> [] then np_mean safety_probs else 0))),
                       (''min_safety'',
                          PyFloat (Fin (case safety_probs of [] \<Rightarrow> 0 | p # ps \<Rightarrow> py_min p ps))),
                       (''max_safety'',
                          PyFloat (Fin (case safety_probs of [] \<Rightarrow> 0 | p # ps \<Rightarrow> py_max p ps))),
                       (''safety_std'',
                          PyFloat (Fin (if safety_probs \<noteq> [] then np_std safety_probs else 0)))])))"

subsection \<open>\<^verbatim>\<open>dijkstra_shortest_path\<close>\<close>

text \<open>
  The local variables of the search: the dicts \<^verbatim>\<open>distances\<close> and \<^verbatim>\<open>previous\<close> and the
  heap \<^verbatim>\<open>pq\<close>. Of \<^verbatim>\<open>heapq\<close> only its contract is modelled: \<^verbatim>\<open>heappush\<close> adds an item,
  \<^verbatim>\<open>heappop\<close> removes and returns the least one, in the order of Python's tuples (first
  the distance, then the node string). The order of the items inside the list is not
  observable through these two.
\<close>

record dstate =
  distances :: "node \<rightharpoonup> pyfloat"
  previous :: "node \<rightharpoonup> node option"
  pq :: "(real \<times> node) list"

definition heappush :: "(real \<times> node) list \<Rightarrow> real \<times> node \<Rightarrow> (real \<times> node) list" where
  "heappush h item = h @ [item]"

definition heappop :: "(real \<times> node) list \<Rightarrow> (real \<times> node) \<times> (real \<times> node) list" where
  "heappop h = (Min (set h), remove1 (Min (set h)) h)"

text \<open>\<^verbatim>\<open>new_dist < distances[neighbor]\<close>\<close>

fun less_pyfloat :: "real \<Rightarrow> pyfloat \<Rightarrow> bool" where
  "less_pyfloat x (Fin y) = (x < y)"
| "less_pyfloat x PInf = True"

text \<open>The loop over \<^verbatim>\<open>self.graph.neighbors(current_node)\<close>.\<close>

fun relax :: "nxgraph \<Rightarrow> node set \<Rightarrow> real \<Rightarrow> node \<Rightarrow> node list \<Rightarrow> dstate \<Rightarrow> error + dstate" where
  "relax g visited current_dist current_node [] s = Inr s"
| "relax g visited current_dist current_node (neighbor # rest) s =
     (if neighbor \<in> visited then relax g visited current_dist current_node rest s
      else
        (case nx_get_edge g current_node neighbor of
           None \<Rightarrow> Inl KeyError
         | Some edge_data \<Rightarrow>
             (let new_dist = current_dist + weight edge_data
              in case distances s neighbor of
                   None \<Rightarrow> Inl KeyError
                 | Some d \<Rightarrow>
                     if less_pyfloat new_dist d then
                       relax g visited current_dist current_node rest
                         (s\<lparr>distances := (distances s)(neighbor \<mapsto> Fin new_dist),
                            previous := (previous s)(neighbor \<mapsto> Some current_node),
                            pq := heappush (pq s) (new_dist, neighbor)\<rparr>)
                     else relax g visited current_dist current_node rest s)))"

text \<open>
  The \<^verbatim>\<open>while pq:\<close> loop. It returns the state at the \<^verbatim>\<open>break\<close> or when the heap is
  empty; \<^verbatim>\<open>visited\<close> is not read after the loop.
\<close>

function dijkstra_loop :: "nxgraph \<Rightarrow> node \<Rightarrow> node set \<Rightarrow> dstate \<Rightarrow> error + dstate" where
  "dijkstra_loop g end_node visited s =
     (if pq s = [] then Inr s
      else
        (let current_dist = fst (fst (heappop (pq s)));
             current_node = snd (fst (heappop (pq s)));
             s1 = s\<lparr>pq := snd (heappop (pq s))\<rparr>
         in if current_node \<in> visited then dijkstra_loop g end_node visited s1
            else if current_node = end_node then Inr s1
            else
              (case nx_neighbors g current_node of
                 Inl e \<Rightarrow> Inl e
               | Inr nbrs \<Rightarrow>
                   (case relax g (insert current_node visited) current_dist current_node nbrs s1 of
                      Inl e \<Rightarrow> Inl e
                    | Inr s2 \<Rightarrow> dijkstra_loop g end_node (insert current_node visited) s2))))"
  by pat_completeness auto

termination dijkstra_loop
proof (relation "measures [\<lambda>(g, e, visited, s). card (set (nx_nodes g) - visited),
                           \<lambda>(g, e, visited, s). length (pq s)]", goal_cases)
  case 1
  show ?case by simp
next
  case (2 g end_node visited s cd cn s1)
  then have "Min (set (pq s)) \<in> set (pq s)" and "0 < length (pq s)"
    by simp_all
  then have "length (snd (heappop (pq s))) < length (pq s)"
    by (simp add: heappop_def length_remove1)
  with 2 show ?case by simp
next
  case (3 g end_node visited s cd cn s1 nbrs s2)
  from 3 have "cn \<in> set (nx_nodes g)"
    by (auto simp: nx_neighbors_def nx_nodes_def split: option.splits dest: map_of_SomeD
        intro: rev_image_eqI)
  moreover from 3 have "cn \<notin> visited"
    by simp
  ultimately have "set (nx_nodes g) - insert cn visited \<subset> set (nx_nodes g) - visited"
    by auto
  then have "card (set (nx_nodes g) - insert cn visited) < card (set (nx_nodes g) - visited)"
    by (intro psubset_card_mono) simp_all
  then show ?case by auto
qed

declare dijkstra_loop.simps [simp del]

text \<open>
  The loop that walks the \<^verbatim>\<open>previous\<close> links back from \<^verbatim>\<open>end\<close>. On a dict with a cycle
  of links it does not return: the value \<open>None\<close> of the model.
\<close>

partial_function (option) walk_back ::
  "(node \<rightharpoonup> node option) \<Rightarrow> node option \<Rightarrow> node list \<Rightarrow> (error + node list) option" where
  "walk_back prev current path =
     (case current of
        None \<Rightarrow> Some (Inr path)
      | Some c \<Rightarrow>
          (case prev c of
             None \<Rightarrow> Some (Inl KeyError)
           | Some p \<Rightarrow> walk_back prev p (path @ [c])))"

text \<open>
  The two blocks \<^verbatim>\<open>if start not in self.graph: ...\<close> and \<^verbatim>\<open>if end not in self.graph: ...\<close>:
  a point that is no node is replaced by \<^verbatim>\<open>self.find_closest_nodes(point, 1)[0][0]\<close>.
\<close>

definition snap_to_graph ::
  "(string \<Rightarrow> real option) \<Rightarrow> router \<Rightarrow> nxgraph \<Rightarrow> string \<Rightarrow> error + node" where
  "snap_to_graph to_float r g point =
     (if nx_contains g point then Inr point
      else
        (case find_closest_nodes to_float r point 1 of
           Inl e \<Rightarrow> Inl e
         | Inr [] \<Rightarrow> Inl IndexError
         | Inr (closest # _) \<Rightarrow> Inr (fst closest)))"

text \<open>The state before the first round of the loop.\<close>

definition init_dstate :: "nxgraph \<Rightarrow> node \<Rightarrow> dstate" where
  "init_dstate g start =
     \<lparr>distances = (map_of (map (\<lambda>n. (n, PInf)) (nx_nodes g)))(start \<mapsto> Fin 0),
      previous = map_of (map (\<lambda>n. (n, None)) (nx_nodes g)),
      pq = [(0, start)]\<rparr>"

text \<open>
  The method returns the triple \<^verbatim>\<open>(path, cost, path_details)\<close>; the outer \<open>option\<close> is
  \<open>None\<close> where the walk along \<^verbatim>\<open>previous\<close> does not return.
\<close>

definition dijkstra_shortest_path ::
  "(string \<Rightarrow> real option) \<Rightarrow> router \<Rightarrow> string \<Rightarrow> string \<Rightarrow>
   (error + node list \<times> pyfloat \<times> pydict) option" where
  "dijkstra_shortest_path to_float r start end_node =
     (case graph r of
        None \<Rightarrow> Some (Inl ValueError)
      | Some g \<Rightarrow>
          (case snap_to_graph to_float r g start of
             Inl e \<Rightarrow> Some (Inl e)
           | Inr start \<Rightarrow>
               (case snap_to_graph to_float r g end_node of
                  Inl e \<Rightarrow> Some (Inl e)
                | Inr end_node \<Rightarrow>
                    (case dijkstra_loop g end_node {} (init_dstate g start) of
                       Inl e \<Rightarrow> Some (Inl e)
                     | Inr s \<Rightarrow>
                         (case distances s end_node of
                            None \<Rightarrow> Some (Inl KeyError)
                          | Some PInf \<Rightarrow> Some (Inr ([], PInf, []))
                          | Some (Fin c) \<Rightarrow>
                              (case walk_back (previous s) (Some end_node) [] of
                                 None \<Rightarrow> None
                               | Some (Inl e) \<Rightarrow> Some (Inl e)
                               | Some (Inr rpath) \<Rightarrow>
                                   (let path = rev rpath
                                    in case get_path_details r path of
                                         Inl e \<Rightarrow> Some (Inl e)
                                       | Inr path_details \<Rightarrow>
                                           Some (Inr (path, Fin c, path_details)))))))))"

subsection \<open>\<^verbatim>\<open>find_optimal_route\<close>\<close>

text \<open>\<^verbatim>\<open>d[key]\<close>\<close>

definition dict_get :: "pydict \<Rightarrow> string \<Rightarrow> error + pyval" where
  "dict_get d key = (case map_of d key of None \<Rightarrow> Inl KeyError | Some v \<Rightarrow> Inr v)"

text \<open>\<^verbatim>\<open>len(path_details['segments'])\<close>\<close>

definition len_segments :: "pydict \<Rightarrow> error + pyval" where
  "len_segments d =
     (case dict_get d ''segments'' of
        Inl e \<Rightarrow> Inl e
      | Inr (PySegments segs) \<Rightarrow> Inr (PyInt (int (length segs)))
      | Inr (PyPath p) \<Rightarrow> Inr (PyInt (int (length p)))
      | Inr (PyStr s) \<Rightarrow> Inr (PyInt (int (length s)))
      | Inr (PyDict kvs) \<Rightarrow> Inr (PyInt (int (length kvs)))
      | Inr _ \<Rightarrow> Inl TypeError)"

text \<open>
  The dict literal \<^verbatim>\<open>route_stats\<close>: its values are computed in the order they are
  written, and the first lookup that fails raises.
\<close>

definition route_stats ::
  "node list \<Rightarrow> pyfloat \<Rightarrow> pydict \<Rightarrow> string \<Rightarrow> error + pydict" where
  "route_stats path total_cost path_details cost_function =
     (case len_segments path_details of Inl e \<Rightarrow> Inl e | Inr num_segments \<Rightarrow>
     (case dict_get path_details ''total_distance'' of Inl e \<Rightarrow> Inl e | Inr total_distance \<Rightarrow>
     (case dict_get path_details ''avg_safety'' of Inl e \<Rightarrow> Inl e | Inr avg_safety \<Rightarrow>
     (case dict_get path_details ''min_safety'' of Inl e \<Rightarrow> Inl e | Inr min_safety \<Rightarrow>
     (case dict_get path_details ''max_safety'' of Inl e \<Rightarrow> Inl e | Inr max_safety \<Rightarrow>
     (case dict_get path_details ''safety_std'' of Inl e \<Rightarrow> Inl e | Inr safety_std \<Rightarrow>
        Inr [(''success'', PyBool True),
             (''path'', PyPath path),
             (''total_cost'', PyFloat total_cost),
             (''path_details'', PyDict path_details),
             (''cost_function'', PyStr cost_function),
             (''num_segments'', num_segments),
             (''total_distance'', total_distance),
             (''avg_safety'', avg_safety),
             (''min_safety'', min_safety),
             (''max_safety'', max_safety),
             (''safety_std'', safety_std)]))))))"

text \<open>
  The method builds the graph with the default \<^verbatim>\<open>min_component_size=2\<close>, which leaves it
  in \<^verbatim>\<open>self.graph\<close>, and searches. The model returns the dict; \<open>None\<close> is as for
  \<open>dijkstra_shortest_path\<close>.
\<close>

definition find_optimal_route ::
  "(string \<Rightarrow> real option) \<Rightarrow> router \<Rightarrow> string \<Rightarrow> string \<Rightarrow> string \<Rightarrow> (error + pydict) option" where
  "find_optimal_route to_float r start end_node cost_function =
     (case dijkstra_shortest_path to_float (create_enhanced_graph r cost_function 2) start end_node of
        None \<Rightarrow> None
      | Some (Inl e) \<Rightarrow> Some (Inl e)
      | Some (Inr (path, total_cost, path_details)) \<Rightarrow>
          if path = [] then
            Some (Inr [(''success'', PyBool False),
                       (''message'', PyStr ''No path found between start and end points''),
                       (''path'', PyPath []),
                       (''total_cost'', PyFloat PInf),
                       (''path_details'', PyDict [])])
          else Some (route_stats path total_cost path_details cost_function))"

section \<open>Notions used to state the properties\<close>

text \<open>
  The invariant of \<^verbatim>\<open>networkx.Graph\<close> the search relies on: a neighbour is a node. Every
  graph made by \<^verbatim>\<open>add_edge\<close> has it (lemma \<open>wf_graph_add_edge\<close>), so every graph the
  router builds (lemma \<open>wf_create_enhanced_graph\<close>).
\<close>

definition wf_graph :: "nxgraph \<Rightarrow> bool" where
  "wf_graph g = (\<forall>u v d. nx_get_edge g u v = Some d \<longrightarrow> v \<in> set (nx_nodes g))"

text \<open>
  The attributes the loop body of \<^verbatim>\<open>create_enhanced_graph\<close> passes to \<^verbatim>\<open>add_edge\<close> for a
  row, the test that keeps a row, and the pairs of nodes a row joins: names for the
  proofs, tied to \<open>add_row\<close> by the lemma \<open>add_row_eq\<close>.
\<close>

definition row_attrs :: "(string \<rightharpoonup> real) \<Rightarrow> string \<Rightarrow> edge_row \<Rightarrow> edge_data" where
  "row_attrs sw cost_function row =
     \<lparr>weight =
        (if cost_function = ''distance'' then cost row
         else if cost_function = ''safety'' then (1 - safety_get sw (road_segment_id row)) * 1000
         else if cost_function = ''combined'' then
           cost row + (1 - safety_get sw (road_segment_id row)) * 1000
         else if cost_function = ''flood_risk'' then
           (1 - safety_get sw (road_segment_id row)) * 10000 + cost row * 0.1
         else cost row),
      segment_id = road_segment_id row, distance = cost row,
      safety_prob = safety_get sw (road_segment_id row)\<rparr>"

definition in_component :: "node fset \<Rightarrow> edge_row \<Rightarrow> bool" where
  "in_component lv row \<longleftrightarrow> from_node row |\<in>| lv \<and> to_node row |\<in>| lv"

definition joins :: "edge_row \<Rightarrow> node \<Rightarrow> node \<Rightarrow> bool" where
  "joins row u v \<longleftrightarrow> (u = from_node row \<and> v = to_node row) \<or> (u = to_node row \<and> v = from_node row)"

text \<open>
  The consecutive pairs of a path that are edges of the graph, each with the edge's
  attributes, and the record \<^verbatim>\<open>_get_path_details\<close> makes of one.
\<close>

definition path_edges :: "nxgraph \<Rightarrow> node list \<Rightarrow> (node \<times> node \<times> edge_data) list" where
  "path_edges g path =
     List.map_filter (\<lambda>(u, v). map_option (\<lambda>e. (u, v, e)) (nx_get_edge g u v)) (zip path (tl path))"

definition seg_of :: "(string \<rightharpoonup> string) \<Rightarrow> node \<times> node \<times> edge_data \<Rightarrow> segment" where
  "seg_of sid_map = (\<lambda>(u, v, e).
     \<lparr>seg_id = (case sid_map (segment_id e) of None \<Rightarrow> segment_id e | Some hub \<Rightarrow> hub),
      seg_from = u, seg_to = v, seg_distance = distance e, seg_safety_prob = safety_prob e\<rparr>)"

text \<open>
  Paths. \<open>path_cost g p\<close> is the sum of the edge weights along the node sequence \<open>p\<close>, and
  \<open>None\<close> when \<open>p\<close> is empty, names a node outside the graph, or takes a step that is no
  edge. \<open>route g s t p\<close>: \<open>p\<close> is a path of the graph from \<open>s\<close> to \<open>t\<close>.
\<close>

fun path_cost :: "nxgraph \<Rightarrow> node list \<Rightarrow> real option" where
  "path_cost g [] = None"
| "path_cost g [v] = (if nx_contains g v then Some 0 else None)"
| "path_cost g (u # v # p) =
     (case nx_get_edge g u v of
        None \<Rightarrow> None
      | Some e \<Rightarrow> (case path_cost g (v # p) of None \<Rightarrow> None | Some c \<Rightarrow> Some (weight e + c)))"

definition route :: "nxgraph \<Rightarrow> node \<Rightarrow> node \<Rightarrow> node list \<Rightarrow> bool" where
  "route g s t p \<longleftrightarrow> p \<noteq> [] \<and> hd p = s \<and> last p = t \<and> path_cost g p \<noteq> None"

text \<open>
  The same paths grown edge by edge from the start, for induction; \<open>route_walk\<close> and
  \<open>walk_route\<close> below relate the two.
\<close>

inductive walk :: "nxgraph \<Rightarrow> node \<Rightarrow> node \<Rightarrow> real \<Rightarrow> bool" for g :: nxgraph and s :: node where
  walk_start: "nx_contains g s \<Longrightarrow> walk g s s 0"
| walk_step: "walk g s u c \<Longrightarrow> nx_get_edge g u v = Some e \<Longrightarrow> walk g s v (c + weight e)"

text \<open>
  \<open>pchain prev v p\<close>: following the \<^verbatim>\<open>previous\<close> links from \<open>v\<close> reaches \<^verbatim>\<open>None\<close>, and \<open>p\<close> is
  the list of the nodes met, in the order from the far end to \<open>v\<close>.
\<close>

inductive pchain :: "(node \<rightharpoonup> node option) \<Rightarrow> node \<Rightarrow> node list \<Rightarrow> bool"
  for prev :: "node \<rightharpoonup> node option" where
  pchain_start: "prev v = Some None \<Longrightarrow> pchain prev v [v]"
| pchain_step: "prev v = Some (Some u) \<Longrightarrow> pchain prev u p \<Longrightarrow> pchain prev v (p @ [v])"

text \<open>
  The invariant of the \<^verbatim>\<open>while\<close> loop that holds for any weights: every node has a
  distance; an item of the heap names a node whose distance is finite and not larger
  than the item's; a node not yet visited with a finite distance has an item with that
  distance in the heap; and the \<^verbatim>\<open>previous\<close> links of a node with a finite distance
  form a path from the start with that cost, all of whose nodes but the last are
  visited.
\<close>

definition dist_keys :: "nxgraph \<Rightarrow> dstate \<Rightarrow> bool" where
  "dist_keys g s \<longleftrightarrow> (\<forall>n \<in> set (nx_nodes g). distances s n \<noteq> None)"

definition queue_sound :: "nxgraph \<Rightarrow> dstate \<Rightarrow> bool" where
  "queue_sound g s \<longleftrightarrow>
     (\<forall>d n. (d, n) \<in> set (pq s) \<longrightarrow>
        n \<in> set (nx_nodes g) \<and> (\<exists>d'. distances s n = Some (Fin d') \<and> d' \<le> d))"

definition queue_complete :: "node set \<Rightarrow> dstate \<Rightarrow> bool" where
  "queue_complete V s \<longleftrightarrow>
     (\<forall>n d. n \<notin> V \<longrightarrow> distances s n = Some (Fin d) \<longrightarrow> (d, n) \<in> set (pq s))"

definition chains :: "nxgraph \<Rightarrow> node \<Rightarrow> node set \<Rightarrow> dstate \<Rightarrow> bool" where
  "chains g start V s \<longleftrightarrow>
     (\<forall>n d. distances s n = Some (Fin d) \<longrightarrow>
        (\<exists>p. pchain (previous s) n p \<and> hd p = start \<and> path_cost g p = Some d \<and>
             set (butlast p) \<subseteq> V))"

definition inv_basic :: "nxgraph \<Rightarrow> node \<Rightarrow> node set \<Rightarrow> dstate \<Rightarrow> bool" where
  "inv_basic g start V s \<longleftrightarrow>
     dist_keys g s \<and> queue_sound g s \<and> queue_complete V s \<and> chains g start V s"

text \<open>The state after the assignments of a successful relaxation.\<close>

definition relaxed_state :: "dstate \<Rightarrow> node \<Rightarrow> node \<Rightarrow> real \<Rightarrow> dstate" where
  "relaxed_state s u v new_dist =
     s\<lparr>distances := (distances s)(v \<mapsto> Fin new_dist),
       previous := (previous s)(v \<mapsto> Some u),
       pq := heappush (pq s) (new_dist, v)\<rparr>"

text \<open>
  The part of the invariant that needs weights \<open>\<ge> 0\<close>: the start's distance is at most 0;
  every edge out of a visited node is relaxed; and no item of the heap is smaller than
  the distance of a visited node. While the neighbours of \<open>u\<close> are being relaxed, the
  edges of \<open>u\<close> to the neighbours done so far are relaxed (\<open>node_relaxed\<close>), and no
  visited node is farther than \<open>u\<close> (\<open>below\<close>).
\<close>

definition nonneg_weights :: "nxgraph \<Rightarrow> bool" where
  "nonneg_weights g \<longleftrightarrow> (\<forall>u v e. nx_get_edge g u v = Some e \<longrightarrow> 0 \<le> weight e)"

definition start_bound :: "node \<Rightarrow> dstate \<Rightarrow> bool" where
  "start_bound start s \<longleftrightarrow> (\<exists>d. distances s start = Some (Fin d) \<and> d \<le> 0)"

definition edges_relaxed :: "nxgraph \<Rightarrow> node set \<Rightarrow> dstate \<Rightarrow> bool" where
  "edges_relaxed g V s \<longleftrightarrow>
     (\<forall>x \<in> V. \<forall>v e. nx_get_edge g x v = Some e \<longrightarrow>
        (\<exists>dx dv. distances s x = Some (Fin dx) \<and> distances s v = Some (Fin dv) \<and>
                 dv \<le> dx + weight e))"

definition queue_above :: "node set \<Rightarrow> dstate \<Rightarrow> bool" where
  "queue_above V s \<longleftrightarrow>
     (\<forall>x \<in> V. \<forall>d n. (d, n) \<in> set (pq s) \<longrightarrow> (\<exists>dx. distances s x = Some (Fin dx) \<and> dx \<le> d))"

definition inv_opt :: "nxgraph \<Rightarrow> node \<Rightarrow> node set \<Rightarrow> dstate \<Rightarrow> bool" where
  "inv_opt g start V s \<longleftrightarrow> start_bound start s \<and> edges_relaxed g V s \<and> queue_above V s"

definition below :: "node set \<Rightarrow> real \<Rightarrow> dstate \<Rightarrow> bool" where
  "below V du s \<longleftrightarrow> (\<forall>x \<in> V. \<exists>dx. distances s x = Some (Fin dx) \<and> dx \<le> du)"

definition node_relaxed :: "nxgraph \<Rightarrow> node \<Rightarrow> real \<Rightarrow> node set \<Rightarrow> dstate \<Rightarrow> bool" where
  "node_relaxed g u du A s \<longleftrightarrow>
     (\<forall>v \<in> A. \<forall>e. nx_get_edge g u v = Some e \<longrightarrow>
        (\<exists>dv. distances s v = Some (Fin dv) \<and> dv \<le> du + weight e))"

text \<open>
  The Euclidean distance \<^verbatim>\<open>find_closest_nodes\<close> computes from the point \<open>(x, y)\<close> to a node
  whose key parses; 0 stands for the distance to a key that does not parse, which the
  method never computes.
\<close>

definition node_dist :: "(string \<Rightarrow> real option) \<Rightarrow> real \<Rightarrow> real \<Rightarrow> node \<Rightarrow> real" where
  "node_dist to_float x y n =
     (case parse_xy to_float n of
        Inl e \<Rightarrow> 0
      | Inr (node_x, node_y) \<Rightarrow> sqrt ((x - node_x)\<^sup>2 + (y - node_y)\<^sup>2))"
section \<open>Concrete inputs\<close>

text \<open>
  Python's \<^verbatim>\<open>float\<close> on the strings of decimal digits, the only strings the examples
  parse: there it returns the number the digits denote. On every other string this
  stand-in is \<open>None\<close>; the theorems below hold for every \<open>to_float\<close>.
\<close>

definition decimal_float :: "string \<Rightarrow> real option" where
  "decimal_float s =
     (if s \<noteq> [] \<and> list_all (\<lambda>c. CHR ''0'' \<le> c \<and> c \<le> CHR ''9'') s
      then Some (real (foldl (\<lambda>n c. 10 * n + (of_char c - 48)) 0 s)) else None)"

text \<open>
  The square of the specification's concrete scenario: nodes (0,0), (0,10), (10,10), (10,0),
  four edges of distance 10, the edge from (0,0) to (10,0) with safety 0.2 and the others
  with 0.9. \<open>square_graph\<close> is the graph built from it under \<^verbatim>\<open>'distance'\<close>.
\<close>

definition square_router :: router where
  "square_router =
     \<lparr>safety_weights = [''1'' \<mapsto> 0.9, ''2'' \<mapsto> 0.2, ''3'' \<mapsto> 0.9, ''4'' \<mapsto> 0.9],
      graph_data = [\<lparr>road_segment_id = ''1'', from_node = ''0,0'', to_node = ''0,10'', cost = 10\<rparr>,
                    \<lparr>road_segment_id = ''2'', from_node = ''0,0'', to_node = ''10,0'', cost = 10\<rparr>,
                    \<lparr>road_segment_id = ''3'', from_node = ''10,0'', to_node = ''10,10'', cost = 10\<rparr>,
                    \<lparr>road_segment_id = ''4'', from_node = ''0,10'', to_node = ''10,10'', cost = 10\<rparr>],
      connected_components = [{|''0,0'', ''0,10'', ''10,0'', ''10,10''|}],
      segment_id_map = Map.empty,
      graph = None\<rparr>"

definition square_graph :: nxgraph where
  "square_graph =
     [(''0,0'',
       [(''0,10'', \<lparr>weight = 10, segment_id = ''1'', distance = 10, safety_prob = 9 / 10\<rparr>),
        (''10,0'', \<lparr>weight = 10, segment_id = ''2'', distance = 10, safety_prob = 2 / 10\<rparr>)]),
      (''0,10'',
       [(''0,0'', \<lparr>weight = 10, segment_id = ''1'', distance = 10, safety_prob = 9 / 10\<rparr>),
        (''10,10'', \<lparr>weight = 10, segment_id = ''4'', distance = 10, safety_prob = 9 / 10\<rparr>)]),
      (''10,0'',
       [(''0,0'', \<lparr>weight = 10, segment_id = ''2'', distance = 10, safety_prob = 2 / 10\<rparr>),
        (''10,10'', \<lparr>weight = 10, segment_id = ''3'', distance = 10, safety_prob = 9 / 10\<rparr>)]),
      (''10,10'',
       [(''10,0'', \<lparr>weight = 10, segment_id = ''3'', distance = 10, safety_prob = 9 / 10\<rparr>),
        (''0,10'', \<lparr>weight = 10, segment_id = ''4'', distance = 10, safety_prob = 9 / 10\<rparr>)])]"

text \<open>A router whose only component has one node, on a loop edge.\<close>

definition lone_router :: router where
  "lone_router =
     \<lparr>safety_weights = Map.empty,
      graph_data = [\<lparr>road_segment_id = ''1'', from_node = ''0,0'', to_node = ''0,0'', cost = 10\<rparr>],
      connected_components = [{|''0,0''|}],
      segment_id_map = Map.empty,
      graph = None\<rparr>"

text \<open>Two rows that join the same two nodes, the second one in the other direction.\<close>

definition dup_router :: router where
  "dup_router =
     \<lparr>safety_weights = [''7'' \<mapsto> 0.9],
      graph_data = [\<lparr>road_segment_id = ''7'', from_node = ''0,0'', to_node = ''0,10'', cost = 5\<rparr>,
                    \<lparr>road_segment_id = ''8'', from_node = ''0,10'', to_node = ''0,0'', cost = 7\<rparr>],
      connected_components = [{|''0,0'', ''0,10''|}],
      segment_id_map = Map.empty,
      graph = None\<rparr>"

text \<open>
  Two edges with no node in common, in a router whose list of components names their
  four nodes as one component; \<open>islands_graph\<close> is the graph built from it.
\<close>

definition islands_router :: router where
  "islands_router =
     \<lparr>safety_weights = Map.empty,
      graph_data = [\<lparr>road_segment_id = ''1'', from_node = ''0,0'', to_node = ''0,10'', cost = 10\<rparr>,
                    \<lparr>road_segment_id = ''2'', from_node = ''50,0'', to_node = ''50,10'', cost = 10\<rparr>],
      connected_components = [{|''0,0'', ''0,10'', ''50,0'', ''50,10''|}],
      segment_id_map = Map.empty,
      graph = None\<rparr>"

definition islands_graph :: nxgraph where
  "islands_graph =
     [(''0,0'', [(''0,10'', \<lparr>weight = 10, segment_id = ''1'', distance = 10, safety_prob = 5 / 10\<rparr>)]),
      (''0,10'', [(''0,0'', \<lparr>weight = 10, segment_id = ''1'', distance = 10, safety_prob = 5 / 10\<rparr>)]),
      (''50,0'', [(''50,10'', \<lparr>weight = 10, segment_id = ''2'', distance = 10, safety_prob = 5 / 10\<rparr>)]),
      (''50,10'', [(''50,0'', \<lparr>weight = 10, segment_id = ''2'', distance = 10, safety_prob = 5 / 10\<rparr>)])]"

text \<open>
  One row whose second endpoint is not a pair of numbers; \<open>bad_key_graph\<close> is the graph
  built from it.
\<close>

definition bad_key_router :: router where
  "bad_key_router =
     \<lparr>safety_weights = Map.empty,
      graph_data = [\<lparr>road_segment_id = ''1'', from_node = ''0,0'', to_node = ''north gate'', cost = 10\<rparr>],
      connected_components = [{|''0,0'', ''north gate''|}],
      segment_id_map = Map.empty,
      graph = None\<rparr>"

definition bad_key_graph :: nxgraph where
  "bad_key_graph =
     [(''0,0'', [(''north gate'', \<lparr>weight = 10, segment_id = ''1'', distance = 10, safety_prob = 0.5\<rparr>)]),
      (''north gate'', [(''0,0'', \<lparr>weight = 10, segment_id = ''1'', distance = 10, safety_prob = 0.5\<rparr>)])]"
section \<open>The graph and its construction\<close>

lemma nx_has_edge_iff: "nx_has_edge g u v \<longleftrightarrow> nx_get_edge g u v \<noteq> None"
  by (simp add: nx_has_edge_def nx_get_edge_def split: option.splits)

lemma nx_contains_iff: "nx_contains g n \<longleftrightarrow> n \<in> set (nx_nodes g)"
  by (simp add: nx_contains_def nx_nodes_def map_of_eq_None_iff)

lemma nx_get_edge_node: "nx_get_edge g u v = Some d \<Longrightarrow> u \<in> set (nx_nodes g)"
  by (auto simp: nx_get_edge_def nx_nodes_def split: option.splits dest: map_of_SomeD intro: rev_image_eqI)

lemma map_of_add_node:
  "map_of (nx_add_node g n) x = (if x = n \<and> map_of g n = None then Some [] else map_of g x)"
  by (simp add: nx_add_node_def map_add_def split: option.splits)

lemma map_of_set_adj:
  "map_of (nx_set_adj g u v d) x =
     (if x = u then Some (AList.update v d (case map_of g u of None \<Rightarrow> [] | Some nbrs \<Rightarrow> nbrs))
      else map_of g x)"
  by (simp add: nx_set_adj_def update_conv')

lemma nodes_add_node: "set (nx_nodes (nx_add_node g n)) = insert n (set (nx_nodes g))"
  by (auto simp: nx_add_node_def nx_nodes_def map_of_eq_None_iff)

lemma nodes_set_adj: "set (nx_nodes (nx_set_adj g u v d)) = insert u (set (nx_nodes g))"
  by (simp add: nx_set_adj_def nx_nodes_def dom_update)

lemma nodes_add_edge: "set (nx_nodes (nx_add_edge g u v d)) = insert u (insert v (set (nx_nodes g)))"
  by (auto simp: nx_add_edge_def nodes_set_adj nodes_add_node)

lemma get_edge_add_edge:
  "nx_get_edge (nx_add_edge g u v d) x y =
     (if (x = u \<and> y = v) \<or> (x = v \<and> y = u) then Some d else nx_get_edge g x y)"
  by (auto simp: nx_add_edge_def nx_get_edge_def map_of_set_adj map_of_add_node update_conv'
      split: option.splits)

lemma wf_graph_empty: "wf_graph []"
  by (simp add: wf_graph_def nx_get_edge_def)

lemma wf_graph_add_edge: "wf_graph g \<Longrightarrow> wf_graph (nx_add_edge g u v d)"
  by (auto simp: wf_graph_def get_edge_add_edge nodes_add_edge split: if_splits)

lemma add_row_eq:
  "add_row sw lv cf g row =
     (if in_component lv row
      then nx_add_edge g (from_node row) (to_node row) (row_attrs sw cf row) else g)"
  by (simp add: add_row_def row_attrs_def in_component_def Let_def)

lemma wf_graph_add_row: "wf_graph g \<Longrightarrow> wf_graph (add_row sw lv cf g row)"
  by (simp add: add_row_eq wf_graph_add_edge)

lemma wf_graph_foldl_add_row: "wf_graph g \<Longrightarrow> wf_graph (foldl (add_row sw lv cf) g rows)"
  by (induction rows arbitrary: g) (simp_all add: wf_graph_add_row)

lemma get_edge_add_row:
  "nx_get_edge (add_row sw lv cf g row) u v =
     (if in_component lv row \<and> joins row u v then Some (row_attrs sw cf row) else nx_get_edge g u v)"
  by (simp add: add_row_eq get_edge_add_edge joins_def)

lemma nodes_add_row:
  "set (nx_nodes (add_row sw lv cf g row)) =
     (if in_component lv row then {from_node row, to_node row} else {}) \<union> set (nx_nodes g)"
  by (auto simp: add_row_eq nodes_add_edge)

lemma get_edge_foldl_cases:
  "nx_get_edge (foldl (add_row sw lv cf) g rows) u v = Some e \<Longrightarrow>
     nx_get_edge g u v = Some e \<or>
     (\<exists>row \<in> set rows. in_component lv row \<and> joins row u v \<and> e = row_attrs sw cf row)"
proof (induction rows arbitrary: g)
  case Nil
  then show ?case by simp
next
  case (Cons row rows)
  from Cons.IH [of "add_row sw lv cf g row"] Cons.prems
  show ?case
    by (auto simp: get_edge_add_row split: if_splits)
qed

lemma get_edge_foldl_untouched:
  "\<forall>row \<in> set rows. \<not> (in_component lv row \<and> joins row u v) \<Longrightarrow>
     nx_get_edge (foldl (add_row sw lv cf) g rows) u v = nx_get_edge g u v"
  by (induction rows arbitrary: g) (auto simp: get_edge_add_row)

lemma get_edge_foldl_last:
  assumes "in_component lv row" and "joins row u v"
    and "\<forall>row' \<in> set post. \<not> (in_component lv row' \<and> joins row' u v)"
  shows "nx_get_edge (foldl (add_row sw lv cf) g (pre @ row # post)) u v = Some (row_attrs sw cf row)"
  using assms by (simp add: get_edge_foldl_untouched get_edge_add_row)

lemma nodes_foldl_mono:
  "set (nx_nodes g) \<subseteq> set (nx_nodes (foldl (add_row sw lv cf) g rows))"
proof (induction rows arbitrary: g)
  case Nil
  show ?case by simp
next
  case (Cons row rows)
  have "set (nx_nodes g) \<subseteq> set (nx_nodes (add_row sw lv cf g row))"
    by (auto simp: nodes_add_row)
  with Cons.IH [of "add_row sw lv cf g row"] show ?case by auto
qed

lemma nodes_foldl_row:
  assumes "row \<in> set rows" and "in_component lv row"
  shows "from_node row \<in> set (nx_nodes (foldl (add_row sw lv cf) g rows))"
    and "to_node row \<in> set (nx_nodes (foldl (add_row sw lv cf) g rows))"
proof -
  from assms(1) obtain pre post where rows: "rows = pre @ row # post"
    by (auto simp: in_set_conv_decomp)
  have "{from_node row, to_node row} \<subseteq> set (nx_nodes (add_row sw lv cf (foldl (add_row sw lv cf) g pre) row))"
    using assms(2) by (simp add: nodes_add_row)
  also have "\<dots> \<subseteq> set (nx_nodes (foldl (add_row sw lv cf) g rows))"
    unfolding rows by (simp add: nodes_foldl_mono)
  finally show "from_node row \<in> set (nx_nodes (foldl (add_row sw lv cf) g rows))"
    and "to_node row \<in> set (nx_nodes (foldl (add_row sw lv cf) g rows))"
    by simp_all
qed

lemma graph_create_enhanced_graph:
  "graph (create_enhanced_graph r cf mcs) =
     Some (case filter (\<lambda>comp. mcs \<le> int (fcard comp)) (connected_components r) of
             [] \<Rightarrow> []
           | c # cs \<Rightarrow> foldl (add_row (safety_weights r) (max_by_len c cs) cf) [] (graph_data r))"
  by (simp add: create_enhanced_graph_def Let_def split: list.splits)

lemma fields_create_enhanced_graph:
  "segment_id_map (create_enhanced_graph r cf mcs) = segment_id_map r"
  "safety_weights (create_enhanced_graph r cf mcs) = safety_weights r"
  "graph_data (create_enhanced_graph r cf mcs) = graph_data r"
  "connected_components (create_enhanced_graph r cf mcs) = connected_components r"
  by (simp_all add: create_enhanced_graph_def Let_def split: list.splits)

lemma wf_create_enhanced_graph:
  "graph (create_enhanced_graph r cf mcs) = Some g \<Longrightarrow> wf_graph g"
  by (auto simp: graph_create_enhanced_graph wf_graph_empty wf_graph_foldl_add_row split: list.splits)

lemma safety_get_range:
  "\<forall>sid p. sw sid = Some p \<longrightarrow> 0 \<le> p \<and> p \<le> 1 \<Longrightarrow> 0 \<le> safety_get sw sid \<and> safety_get sw sid \<le> 1"
  by (auto simp: safety_get_def split: option.splits)

lemma weight_row_attrs_nonneg:
  assumes "0 \<le> cost row" and "\<forall>sid p. sw sid = Some p \<longrightarrow> 0 \<le> p \<and> p \<le> 1"
  shows "0 \<le> weight (row_attrs sw cf row)"
proof -
  from safety_get_range [OF assms(2)]
  have "0 \<le> 1 - safety_get sw (road_segment_id row)" by simp
  with assms(1) show ?thesis
    by (simp add: row_attrs_def)
qed

text \<open>The equations that evaluate the construction on a concrete router.\<close>

lemmas build_simps = create_enhanced_graph_def add_row_def nx_add_edge_def nx_set_adj_def
  nx_add_node_def safety_get_def fcard_finsert_if fcard_fempty Let_def

lemma square_built:
  "create_enhanced_graph square_router ''distance'' 2 = square_router\<lparr>graph := Some square_graph\<rparr>"
  by (simp add: square_router_def square_graph_def build_simps)

lemma lone_built:
  "create_enhanced_graph lone_router cf 2 = lone_router\<lparr>graph := Some []\<rparr>"
  by (simp add: lone_router_def build_simps)

lemma islands_built:
  "create_enhanced_graph islands_router ''distance'' 2 = islands_router\<lparr>graph := Some islands_graph\<rparr>"
  by (simp add: islands_router_def islands_graph_def build_simps)

lemma bad_key_built:
  "create_enhanced_graph bad_key_router ''distance'' 2 = bad_key_router\<lparr>graph := Some bad_key_graph\<rparr>"
  by (simp add: bad_key_router_def bad_key_graph_def build_simps)
section \<open>The claims about \<^verbatim>\<open>create_enhanced_graph\<close>\<close>

text \<open>
  Claim C2, as amended. For every row of \<^verbatim>\<open>graph_data\<close> whose two endpoints lie in the
  selected component, and after which no row of the component joins the same two
  endpoints (in either direction), the graph built by \<^verbatim>\<open>create_enhanced_graph\<close> holds an
  edge between the row's endpoints, the same in both directions, whose weight is: the
  row's distance under \<^verbatim>\<open>'distance'\<close>; \<open>(1 - p) * 1000\<close> under \<^verbatim>\<open>'safety'\<close>;
  \<open>distance + (1 - p) * 1000\<close> under \<^verbatim>\<open>'combined'\<close>; \<open>(1 - p) * 10000 + distance * 0.1\<close>
  under \<^verbatim>\<open>'flood_risk'\<close>; and the distance under any other name. Here \<open>p\<close> is the
  probability registered for the row's segment id, and 0.5 when there is none.
\<close>

theorem create_enhanced_graph_weight_last:
  assumes "filter (\<lambda>comp. mcs \<le> int (fcard comp)) (connected_components r) = c # cs"
    and "graph_data r = pre @ row # post"
    and "from_node row |\<in>| max_by_len c cs" and "to_node row |\<in>| max_by_len c cs"
    and "\<forall>row' \<in> set post. from_node row' |\<in>| max_by_len c cs \<and> to_node row' |\<in>| max_by_len c cs
           \<longrightarrow> {from_node row', to_node row'} \<noteq> {from_node row, to_node row}"
    and "graph (create_enhanced_graph r cf mcs) = Some g"
  shows "\<exists>e. nx_get_edge g (from_node row) (to_node row) = Some e \<and>
             nx_get_edge g (to_node row) (from_node row) = Some e \<and>
             weight e =
               (let d = cost row;
                    p = (case safety_weights r (road_segment_id row) of None \<Rightarrow> 0.5 | Some q \<Rightarrow> q)
                in if cf = ''distance'' then d
                   else if cf = ''safety'' then (1 - p) * 1000
                   else if cf = ''combined'' then d + (1 - p) * 1000
                   else if cf = ''flood_risk'' then (1 - p) * 10000 + d * 0.1
                   else d)"
proof -
  let ?lv = "max_by_len c cs"
  let ?sw = "safety_weights r"
  from assms(1,2,6)
  have g: "g = foldl (add_row ?sw ?lv cf) [] (pre @ row # post)"
    by (simp add: graph_create_enhanced_graph)
  have comp: "in_component ?lv row"
    using assms(3,4) by (simp add: in_component_def)
  have later: "\<forall>row' \<in> set post. \<not> (in_component ?lv row' \<and> joins row' u v)"
    if "joins row u v" for u v
    using assms(5) that by (auto simp: in_component_def joins_def doubleton_eq_iff)
  have "nx_get_edge g (from_node row) (to_node row) = Some (row_attrs ?sw cf row)"
    unfolding g by (rule get_edge_foldl_last [OF comp _ later]) (simp_all add: joins_def)
  moreover have "nx_get_edge g (to_node row) (from_node row) = Some (row_attrs ?sw cf row)"
    unfolding g by (rule get_edge_foldl_last [OF comp _ later]) (simp_all add: joins_def)
  moreover have "weight (row_attrs ?sw cf row) =
      (let d = cost row;
           p = (case ?sw (road_segment_id row) of None \<Rightarrow> 0.5 | Some q \<Rightarrow> q)
       in if cf = ''distance'' then d
          else if cf = ''safety'' then (1 - p) * 1000
          else if cf = ''combined'' then d + (1 - p) * 1000
          else if cf = ''flood_risk'' then (1 - p) * 10000 + d * 0.1
          else d)"
    by (simp add: row_attrs_def safety_get_def Let_def)
  ultimately show ?thesis by blast
qed

text \<open>
  The theorem at the second row of \<open>dup_router\<close> under \<^verbatim>\<open>'distance'\<close>: the edge carries
  the second row's distance 7 (and the default probability 0.5, its id being unknown).
\<close>

theorem create_enhanced_graph_weight_last_witness:
  "\<exists>e. nx_get_edge [(''0,0'', [(''0,10'', \<lparr>weight = 7, segment_id = ''8'', distance = 7, safety_prob = 0.5\<rparr>)]),
                     (''0,10'', [(''0,0'', \<lparr>weight = 7, segment_id = ''8'', distance = 7, safety_prob = 0.5\<rparr>)])]
         ''0,10'' ''0,0'' = Some e \<and> weight e = 7"
proof -
  have 1: "filter (\<lambda>comp. 2 \<le> int (fcard comp)) (connected_components dup_router) = [{|''0,0'', ''0,10''|}]"
    by (simp add: dup_router_def fcard_finsert_if)
  have 2: "graph_data dup_router =
      [\<lparr>road_segment_id = ''7'', from_node = ''0,0'', to_node = ''0,10'', cost = 5\<rparr>]
      @ \<lparr>road_segment_id = ''8'', from_node = ''0,10'', to_node = ''0,0'', cost = 7\<rparr> # []"
    by (simp add: dup_router_def)
  have 3: "graph (create_enhanced_graph dup_router ''distance'' 2) =
      Some [(''0,0'', [(''0,10'', \<lparr>weight = 7, segment_id = ''8'', distance = 7, safety_prob = 0.5\<rparr>)]),
            (''0,10'', [(''0,0'', \<lparr>weight = 7, segment_id = ''8'', distance = 7, safety_prob = 0.5\<rparr>)])]"
    by (simp add: dup_router_def build_simps)
  from create_enhanced_graph_weight_last [OF 1 2 _ _ _ 3]
  show ?thesis by auto
qed

text \<open>
  Claim C2 as stated fails for a row that a later row overwrites: \<^verbatim>\<open>networkx.Graph\<close>
  keeps one edge per pair of nodes. Under \<^verbatim>\<open>'distance'\<close> the first row of \<open>dup_router\<close>
  has distance 5 and both its endpoints in the selected component, and the edge
  between its endpoints has weight 7.
\<close>

theorem stored_weight_overwritten_counterexample:
  "graph (create_enhanced_graph dup_router ''distance'' 2) =
     Some [(''0,0'', [(''0,10'', \<lparr>weight = 7, segment_id = ''8'', distance = 7, safety_prob = 0.5\<rparr>)]),
           (''0,10'', [(''0,0'', \<lparr>weight = 7, segment_id = ''8'', distance = 7, safety_prob = 0.5\<rparr>)])]
   \<and> hd (graph_data dup_router) =
       \<lparr>road_segment_id = ''7'', from_node = ''0,0'', to_node = ''0,10'', cost = 5\<rparr>
   \<and> filter (\<lambda>comp. 2 \<le> int (fcard comp)) (connected_components dup_router) = [{|''0,0'', ''0,10''|}]
   \<and> map_option weight
        (nx_get_edge [(''0,0'', [(''0,10'', \<lparr>weight = 7, segment_id = ''8'', distance = 7, safety_prob = 0.5\<rparr>)]),
                      (''0,10'', [(''0,0'', \<lparr>weight = 7, segment_id = ''8'', distance = 7, safety_prob = 0.5\<rparr>)])]
           ''0,0'' ''0,10'') = Some 7"
  by (simp add: dup_router_def build_simps nx_get_edge_def)

text \<open>
  Claim C9. When every row has a distance \<open>\<ge> 0\<close> and every registered probability lies
  in \<open>[0, 1]\<close>, every edge of the graph built by \<^verbatim>\<open>create_enhanced_graph\<close> has a weight
  \<open>\<ge> 0\<close>, under every strategy name.
\<close>

theorem create_enhanced_graph_weight_nonneg:
  assumes "\<forall>row \<in> set (graph_data r). 0 \<le> cost row"
    and "\<forall>sid p. safety_weights r sid = Some p \<longrightarrow> 0 \<le> p \<and> p \<le> 1"
    and "graph (create_enhanced_graph r cf mcs) = Some g"
    and "nx_get_edge g u v = Some e"
  shows "0 \<le> weight e"
proof (cases "filter (\<lambda>comp. mcs \<le> int (fcard comp)) (connected_components r)")
  case Nil
  with assms(3) have "g = []"
    by (simp add: graph_create_enhanced_graph)
  with assms(4) show ?thesis
    by (simp add: nx_get_edge_def)
next
  case (Cons c cs)
  with assms(3)
  have "g = foldl (add_row (safety_weights r) (max_by_len c cs) cf) [] (graph_data r)"
    by (simp add: graph_create_enhanced_graph)
  with assms(4) get_edge_foldl_cases [of "safety_weights r" "max_by_len c cs" cf "[]" "graph_data r" u v e]
  obtain row where "row \<in> set (graph_data r)" and "e = row_attrs (safety_weights r) cf row"
    by (auto simp: nx_get_edge_def)
  with assms(1,2) show ?thesis
    by (simp add: weight_row_attrs_nonneg)
qed

text \<open>
  The theorem at \<open>dup_router\<close> under \<^verbatim>\<open>'flood_risk'\<close>: the rows' distances are 5 and 7, the
  one registered probability is 0.9, and the stored edge has the weight
  \<open>(1 - 0.5) * 10000 + 7 * 0.1\<close>.
\<close>

theorem create_enhanced_graph_weight_nonneg_witness:
  "list_all (\<lambda>row. 0 \<le> cost row) (graph_data dup_router) \<and>
   ran (safety_weights dup_router) \<subseteq> {0..1} \<and>
   graph (create_enhanced_graph dup_router ''flood_risk'' 2) =
     Some [(''0,0'', [(''0,10'', \<lparr>weight = 50007 / 10, segment_id = ''8'', distance = 7, safety_prob = 0.5\<rparr>)]),
           (''0,10'', [(''0,0'', \<lparr>weight = 50007 / 10, segment_id = ''8'', distance = 7, safety_prob = 0.5\<rparr>)])] \<and>
   (\<exists>e. nx_get_edge [(''0,0'', [(''0,10'', \<lparr>weight = 50007 / 10, segment_id = ''8'', distance = 7, safety_prob = 0.5\<rparr>)]),
                      (''0,10'', [(''0,0'', \<lparr>weight = 50007 / 10, segment_id = ''8'', distance = 7, safety_prob = 0.5\<rparr>)])]
          ''0,0'' ''0,10'' = Some e \<and> 0 \<le> weight e)"
proof -
  have 1: "\<forall>row \<in> set (graph_data dup_router). 0 \<le> cost row"
    by (simp add: dup_router_def)
  have 2: "\<forall>sid p. safety_weights dup_router sid = Some p \<longrightarrow> 0 \<le> p \<and> p \<le> 1"
    by (simp add: dup_router_def)
  have 3: "graph (create_enhanced_graph dup_router ''flood_risk'' 2) =
     Some [(''0,0'', [(''0,10'', \<lparr>weight = 50007 / 10, segment_id = ''8'', distance = 7, safety_prob = 0.5\<rparr>)]),
           (''0,10'', [(''0,0'', \<lparr>weight = 50007 / 10, segment_id = ''8'', distance = 7, safety_prob = 0.5\<rparr>)])]"
    by (simp add: dup_router_def build_simps)
  have 4: "nx_get_edge [(''0,0'', [(''0,10'', \<lparr>weight = 50007 / 10, segment_id = ''8'', distance = 7, safety_prob = 0.5\<rparr>)]),
           (''0,10'', [(''0,0'', \<lparr>weight = 50007 / 10, segment_id = ''8'', distance = 7, safety_prob = 0.5\<rparr>)])]
           ''0,0'' ''0,10'' = Some \<lparr>weight = 50007 / 10, segment_id = ''8'', distance = 7, safety_prob = 0.5\<rparr>"
    by (simp add: nx_get_edge_def)
  have 5: "ran (safety_weights dup_router) \<subseteq> {0..1}"
    by (auto simp: dup_router_def ran_def)
  from create_enhanced_graph_weight_nonneg [OF 1 2 3 4] 1 3 4 5
  show ?thesis by (simp add: list_all_iff)
qed

section \<open>The path details\<close>

lemma map_filter_append: "List.map_filter f (xs @ ys) = List.map_filter f xs @ List.map_filter f ys"
  by (simp add: List.map_filter_def)

lemma map_filter_all_Some: "map f xs = map Some ys \<Longrightarrow> List.map_filter f xs = ys"
  by (induction xs arbitrary: ys) (auto simp: List.map_filter_simps)

lemma path_step_edge:
  "path_step g m path (segs, td, ps) i =
     (case nx_get_edge g (path ! i) (path ! Suc i) of
        None \<Rightarrow> (segs, td, ps)
      | Some e \<Rightarrow> (segs @ [seg_of m (path ! i, path ! Suc i, e)], td + distance e, ps @ [safety_prob e]))"
  by (simp add: path_step_def seg_of_def Let_def split: option.splits)

lemma path_loop:
  "n \<le> length path - 1 \<Longrightarrow>
   foldl (path_step g m path) ([], 0, []) [0..<n] =
     (let es = List.map_filter (\<lambda>(u, v). map_option (\<lambda>e. (u, v, e)) (nx_get_edge g u v))
                 (take n (zip path (tl path)))
      in (map (seg_of m) es, sum_list (map (\<lambda>(u, v, e). distance e) es),
          map (\<lambda>(u, v, e). safety_prob e) es))"
proof (induction n)
  case 0
  show ?case by (simp add: List.map_filter_simps)
next
  case (Suc n)
  let ?ps = "zip path (tl path)"
  from Suc.prems have n: "n < length ?ps" by simp
  then have nth: "?ps ! n = (path ! n, path ! Suc n)"
    by (simp add: nth_tl)
  from n have take: "take (Suc n) ?ps = take n ?ps @ [?ps ! n]"
    by (rule take_Suc_conv_app_nth)
  from Suc show ?case
    by (simp add: take nth map_filter_append path_step_edge Let_def List.map_filter_simps
        split: option.splits)
qed

lemma py_min_fold: "py_min m xs = fold min xs m"
  by (induction xs arbitrary: m) (auto simp: min_def intro!: arg_cong2 [where f = "fold min"])

lemma py_max_fold: "py_max m xs = fold max xs m"
  by (induction xs arbitrary: m) (auto simp: max_def intro!: arg_cong2 [where f = "fold max"])

lemma py_min_Min: "py_min x xs = Min (set (x # xs))"
  by (simp only: py_min_fold Min.set_eq_fold)

lemma py_max_Max: "py_max x xs = Max (set (x # xs))"
  by (simp only: py_max_fold Max.set_eq_fold)

lemma py_min_default:
  "(case ps of [] \<Rightarrow> 0 | p # qs \<Rightarrow> py_min p qs) = (if ps \<noteq> [] then Min (set ps) else 0)"
  by (cases ps) (simp_all only: py_min_Min list.case simp_thms if_True if_False list.distinct)

lemma py_max_default:
  "(case ps of [] \<Rightarrow> 0 | p # qs \<Rightarrow> py_max p qs) = (if ps \<noteq> [] then Max (set ps) else 0)"
  by (cases ps) (simp_all only: py_max_Max list.case simp_thms if_True if_False list.distinct)

lemma get_path_details_eq:
  assumes "graph r = Some g"
  shows "get_path_details r path =
     Inr (if length path < 2 then
            [(''segments'', PySegments []), (''total_distance'', PyFloat (Fin 0)),
             (''avg_safety'', PyFloat (Fin 0))]
          else
            (let es = path_edges g path;
                 ps = map (\<lambda>(u, v, e). safety_prob e) es
             in [(''segments'', PySegments (map (seg_of (segment_id_map r)) es)),
                 (''total_distance'', PyFloat (Fin (sum_list (map (\<lambda>(u, v, e). distance e) es)))),
                 (''avg_safety'', PyFloat (Fin (if ps \<noteq> [] then np_mean ps else 0))),
                 (''min_safety'', PyFloat (Fin (if ps \<noteq> [] then Min (set ps) else 0))),
                 (''max_safety'', PyFloat (Fin (if ps \<noteq> [] then Max (set ps) else 0))),
                 (''safety_std'', PyFloat (Fin (if ps \<noteq> [] then np_std ps else 0)))]))"
proof (cases "length path < 2")
  case True
  then show ?thesis by (simp add: get_path_details_def)
next
  case False
  have "take (length path - 1) (zip path (tl path)) = zip path (tl path)"
    by simp
  with path_loop [of "length path - 1" path g "segment_id_map r", OF order_refl]
  have loop: "foldl (path_step g (segment_id_map r) path) ([], 0, []) [0..<length path - 1] =
      (map (seg_of (segment_id_map r)) (path_edges g path),
       sum_list (map (\<lambda>(u, v, e). distance e) (path_edges g path)),
       map (\<lambda>(u, v, e). safety_prob e) (path_edges g path))"
    by (simp add: path_edges_def Let_def)
  show ?thesis
    using False assms
    by (simp add: get_path_details_def loop [unfolded One_nat_def] Let_def py_min_default
        py_max_default)
qed

text \<open>The equations that evaluate a search on a concrete graph.\<close>

lemmas search_simps = dijkstra_shortest_path_def snap_to_graph_def nx_contains_def init_dstate_def
  nx_nodes_def dijkstra_loop.simps heappop_def heappush_def nx_neighbors_def nx_get_edge_def
  walk_back.simps Let_def

text \<open>
  With no component of at least two nodes the graph is empty, no start is a node of
  it, and the nearest-node list the snapping indexes is empty.
\<close>

lemma find_optimal_route_no_component:
  assumes "filter (\<lambda>comp. 2 \<le> int (fcard comp)) (connected_components r) = []"
  shows "find_optimal_route to_float r start end_node cf =
     Some (Inl (case parse_xy to_float start of Inl e \<Rightarrow> e | Inr p \<Rightarrow> IndexError))"
proof -
  have g: "graph (create_enhanced_graph r cf 2) = Some []"
    using assms by (simp add: graph_create_enhanced_graph)
  show ?thesis
    by (simp add: find_optimal_route_def dijkstra_shortest_path_def g snap_to_graph_def
        nx_contains_def find_closest_nodes_def nx_nodes_def py_prefix_def
        split: sum.splits prod.splits)
qed

section \<open>The claims about \<^verbatim>\<open>_get_path_details\<close> and its callers\<close>

text \<open>
  Claim C5. For a path of at least two nodes whose consecutive pairs are all edges of
  the graph, with \<open>es\<close> the attributes of these edges in order, the dict returned by
  \<^verbatim>\<open>_get_path_details\<close> has \<^verbatim>\<open>total_distance\<close> the sum of the edges' distances,
  \<^verbatim>\<open>avg_safety\<close> the arithmetic mean of their safety probabilities, \<^verbatim>\<open>min_safety\<close> and
  \<^verbatim>\<open>max_safety\<close> their minimum and maximum, and \<^verbatim>\<open>safety_std\<close> their population standard
  deviation.
\<close>

theorem get_path_details_aggregates:
  assumes "graph r = Some g" and "2 \<le> length path"
    and "length es = length path - 1"
    and "\<forall>i < length es. nx_get_edge g (path ! i) (path ! Suc i) = Some (es ! i)"
  shows "\<exists>d. get_path_details r path = Inr d \<and>
     map_of d ''total_distance'' = Some (PyFloat (Fin (\<Sum>e\<leftarrow>es. distance e))) \<and>
     map_of d ''avg_safety'' = Some (PyFloat (Fin ((\<Sum>e\<leftarrow>es. safety_prob e) / real (length es)))) \<and>
     map_of d ''min_safety'' = Some (PyFloat (Fin (Min (safety_prob ` set es)))) \<and>
     map_of d ''max_safety'' = Some (PyFloat (Fin (Max (safety_prob ` set es)))) \<and>
     map_of d ''safety_std'' =
       Some (PyFloat (Fin (sqrt ((\<Sum>e\<leftarrow>es. (safety_prob e - (\<Sum>e\<leftarrow>es. safety_prob e) / real (length es))\<^sup>2)
                                  / real (length es)))))"
proof -
  let ?ps = "zip path (tl path)"
  let ?f = "\<lambda>(u, v). map_option (\<lambda>e. (u, v, e)) (nx_get_edge g u v)"
  have len: "length ?ps = length es"
    using assms(3) by simp
  have nth: "?f (?ps ! i) = Some (path ! i, path ! Suc i, es ! i)" if "i < length es" for i
    using that assms(3,4) by (simp add: nth_tl)
  have "map ?f ?ps = map (\<lambda>i. Some (path ! i, path ! Suc i, es ! i)) [0..<length es]"
  proof (rule nth_equalityI)
    show "length (map ?f ?ps) = length (map (\<lambda>i. Some (path ! i, path ! Suc i, es ! i)) [0..<length es])"
      using len by simp
  next
    fix i
    assume "i < length (map ?f ?ps)"
    with len have i: "i < length es" "i < length ?ps"
      by simp_all
    from nth [OF i(1)] i
    show "map ?f ?ps ! i = map (\<lambda>i. Some (path ! i, path ! Suc i, es ! i)) [0..<length es] ! i"
      by (simp only: nth_map length_upt nth_upt minus_nat.diff_0 add_0)
  qed
  then have "map ?f ?ps = map Some (map (\<lambda>i. (path ! i, path ! Suc i, es ! i)) [0..<length es])"
    by (simp only: map_map comp_def)
  then have "path_edges g path = map (\<lambda>i. (path ! i, path ! Suc i, es ! i)) [0..<length es]"
    unfolding path_edges_def by (rule map_filter_all_Some)
  then have third: "map (\<lambda>(u, v, e). h e) (path_edges g path) = map h es" for h :: "edge_data \<Rightarrow> real"
    by (intro nth_equalityI) simp_all
  from assms(2,3) have ne: "es \<noteq> []" by auto
  from assms(2) have long: "\<not> length path < 2" by simp
  have d: "get_path_details r path =
     Inr [(''segments'', PySegments (map (seg_of (segment_id_map r)) (path_edges g path))),
          (''total_distance'', PyFloat (Fin (sum_list (map distance es)))),
          (''avg_safety'', PyFloat (Fin (np_mean (map safety_prob es)))),
          (''min_safety'', PyFloat (Fin (Min (set (map safety_prob es))))),
          (''max_safety'', PyFloat (Fin (Max (set (map safety_prob es))))),
          (''safety_std'', PyFloat (Fin (np_std (map safety_prob es))))]"
    unfolding get_path_details_eq [OF assms(1)] Let_def third
    using long ne by simp
  have std: "np_std (map safety_prob es) =
      sqrt ((\<Sum>e\<leftarrow>es. (safety_prob e - (\<Sum>e\<leftarrow>es. safety_prob e) / real (length es))\<^sup>2)
            / real (length es))"
    by (simp add: np_std_def np_mean_def comp_def)
  show ?thesis
    unfolding d std
    by (simp add: np_mean_def)
qed

text \<open>
  The theorem on the square, along (0,0), (10,0), (10,10): distances 10 and 10, safety
  0.2 and 0.9.
\<close>

theorem get_path_details_aggregates_witness:
  "\<exists>d. get_path_details (square_router\<lparr>graph := Some square_graph\<rparr>) [''0,0'', ''10,0'', ''10,10''] = Inr d \<and>
     map_of d ''total_distance'' = Some (PyFloat (Fin 20)) \<and>
     map_of d ''avg_safety'' = Some (PyFloat (Fin (11 / 20))) \<and>
     map_of d ''min_safety'' = Some (PyFloat (Fin (2 / 10))) \<and>
     map_of d ''max_safety'' = Some (PyFloat (Fin (9 / 10))) \<and>
     map_of d ''safety_std'' = Some (PyFloat (Fin (sqrt (49 / 400))))"
proof -
  let ?es = "[\<lparr>weight = 10, segment_id = ''2'', distance = 10, safety_prob = 2 / 10\<rparr>,
              \<lparr>weight = 10, segment_id = ''3'', distance = 10, safety_prob = 9 / 10\<rparr>]"
  have 1: "graph (square_router\<lparr>graph := Some square_graph\<rparr>) = Some square_graph"
    by simp
  have 2: "2 \<le> length [''0,0'', ''10,0'', ''10,10'']"
    by simp
  have 3: "length ?es = length [''0,0'', ''10,0'', ''10,10''] - 1"
    by simp
  have 4: "\<forall>i < length ?es. nx_get_edge square_graph ([''0,0'', ''10,0'', ''10,10''] ! i)
              ([''0,0'', ''10,0'', ''10,10''] ! Suc i) = Some (?es ! i)"
    by (auto simp: less_Suc_eq square_graph_def nx_get_edge_def)
  have 5: "(\<Sum>e\<leftarrow>?es. (safety_prob e - (\<Sum>e\<leftarrow>?es. safety_prob e) / real (length ?es))\<^sup>2) / real (length ?es)
      = 49 / 400"
    by (simp add: power2_eq_square)
  from get_path_details_aggregates [OF 1 2 3 4]
  show ?thesis
    unfolding 5 by simp
qed

text \<open>
  Claim C10. For every path, \<^verbatim>\<open>_get_path_details\<close> returns a dict and raises nothing, and
  the segment records, the total distance and the safety aggregates are those of
  \<open>path_edges\<close>, the consecutive pairs that are edges of the graph: a pair that is no
  edge adds no record, no distance and no safety value. (The keys \<^verbatim>\<open>min_safety\<close>,
  \<^verbatim>\<open>max_safety\<close> and \<^verbatim>\<open>safety_std\<close> exist for a path of two nodes or more.)
\<close>

theorem get_path_details_skips_non_edges:
  assumes "graph r = Some g"
  shows "\<exists>d. get_path_details r path = Inr d \<and>
     map_of d ''segments'' =
       Some (PySegments
         (map (\<lambda>(u, v, e).
                \<lparr>seg_id = (case segment_id_map r (segment_id e) of
                             None \<Rightarrow> segment_id e | Some hub \<Rightarrow> hub),
                 seg_from = u, seg_to = v, seg_distance = distance e,
                 seg_safety_prob = safety_prob e\<rparr>)
              (path_edges g path))) \<and>
     map_of d ''total_distance'' = Some (PyFloat (Fin (\<Sum>(u, v, e)\<leftarrow>path_edges g path. distance e))) \<and>
     map_of d ''avg_safety'' =
       Some (PyFloat (Fin (if path_edges g path \<noteq> []
                           then np_mean (map (\<lambda>(u, v, e). safety_prob e) (path_edges g path)) else 0))) \<and>
     (2 \<le> length path \<longrightarrow>
        map_of d ''min_safety'' =
          Some (PyFloat (Fin (if path_edges g path \<noteq> []
                              then Min (set (map (\<lambda>(u, v, e). safety_prob e) (path_edges g path))) else 0))) \<and>
        map_of d ''max_safety'' =
          Some (PyFloat (Fin (if path_edges g path \<noteq> []
                              then Max (set (map (\<lambda>(u, v, e). safety_prob e) (path_edges g path))) else 0))) \<and>
        map_of d ''safety_std'' =
          Some (PyFloat (Fin (if path_edges g path \<noteq> []
                              then np_std (map (\<lambda>(u, v, e). safety_prob e) (path_edges g path)) else 0))))"
proof (cases "length path < 2")
  case True
  then have "zip path (tl path) = []"
    by (cases path) simp_all
  then have "path_edges g path = []"
    unfolding path_edges_def by (simp only: List.map_filter_simps)
  with True show ?thesis
    by (simp add: get_path_details_eq [OF assms])
next
  case False
  then show ?thesis
    unfolding get_path_details_eq [OF assms] Let_def
    by (simp add: seg_of_def)
qed

text \<open>
  The theorem on the square, along (0,0), (10,10), (10,0): the first pair is a diagonal
  of the square and no edge, and the details are those of the second pair alone.
\<close>

theorem get_path_details_skips_non_edges_witness:
  "nx_get_edge square_graph ''0,0'' ''10,10'' = None \<and>
   (\<exists>d. get_path_details (square_router\<lparr>graph := Some square_graph\<rparr>) [''0,0'', ''10,10'', ''10,0''] = Inr d \<and>
     map_of d ''segments'' =
       Some (PySegments [\<lparr>seg_id = ''3'', seg_from = ''10,10'', seg_to = ''10,0'', seg_distance = 10,
                          seg_safety_prob = 9 / 10\<rparr>]) \<and>
     map_of d ''total_distance'' = Some (PyFloat (Fin 10)) \<and>
     map_of d ''avg_safety'' = Some (PyFloat (Fin (9 / 10))) \<and>
     map_of d ''min_safety'' = Some (PyFloat (Fin (9 / 10))) \<and>
     map_of d ''max_safety'' = Some (PyFloat (Fin (9 / 10))) \<and>
     map_of d ''safety_std'' = Some (PyFloat (Fin 0)))"
proof -
  have 1: "graph (square_router\<lparr>graph := Some square_graph\<rparr>) = Some square_graph"
    by simp
  have 2: "path_edges square_graph [''0,0'', ''10,10'', ''10,0''] =
      [(''10,10'', ''10,0'', \<lparr>weight = 10, segment_id = ''3'', distance = 10, safety_prob = 9 / 10\<rparr>)]"
    by (simp add: path_edges_def square_graph_def nx_get_edge_def List.map_filter_simps)
  have 3: "nx_get_edge square_graph ''0,0'' ''10,10'' = None"
    by (simp add: square_graph_def nx_get_edge_def)
  have 4: "segment_id_map (square_router\<lparr>graph := Some square_graph\<rparr>) = Map.empty"
    by (simp add: square_router_def)
  from get_path_details_skips_non_edges [OF 1, of "[''0,0'', ''10,10'', ''10,0'']"] 3
  show ?thesis
    unfolding 2 4 by (simp add: np_mean_def np_std_def)
qed

text \<open>
  Claim C6 fails on the code. For a path of fewer than two nodes \<^verbatim>\<open>_get_path_details\<close>
  returns a dict with the keys \<^verbatim>\<open>segments\<close>, \<^verbatim>\<open>total_distance\<close> and \<^verbatim>\<open>avg_safety\<close> only, so
  reading \<^verbatim>\<open>min_safety\<close> from it raises \<^verbatim>\<open>KeyError\<close>. \<^verbatim>\<open>find_optimal_route\<close> does read it:
  a route from a node to itself has the one-node path and raises.
\<close>

theorem single_node_route_raises:
  "get_path_details (square_router\<lparr>graph := Some square_graph\<rparr>) [''0,0''] =
     Inr [(''segments'', PySegments []), (''total_distance'', PyFloat (Fin 0)),
          (''avg_safety'', PyFloat (Fin 0))] \<and>
   dict_get [(''segments'', PySegments []), (''total_distance'', PyFloat (Fin 0)),
             (''avg_safety'', PyFloat (Fin 0))] ''min_safety'' = Inl KeyError \<and>
   dijkstra_shortest_path decimal_float (square_router\<lparr>graph := Some square_graph\<rparr>) ''0,0'' ''0,0'' =
     Some (Inr ([''0,0''], Fin 0,
                [(''segments'', PySegments []), (''total_distance'', PyFloat (Fin 0)),
                 (''avg_safety'', PyFloat (Fin 0))])) \<and>
   find_optimal_route decimal_float square_router ''0,0'' ''0,0'' ''distance'' = Some (Inl KeyError)"
proof -
  have 1: "dijkstra_shortest_path decimal_float (square_router\<lparr>graph := Some square_graph\<rparr>) ''0,0'' ''0,0'' =
     Some (Inr ([''0,0''], Fin 0,
                [(''segments'', PySegments []), (''total_distance'', PyFloat (Fin 0)),
                 (''avg_safety'', PyFloat (Fin 0))]))"
    by (simp add: square_graph_def search_simps get_path_details_def)
  show ?thesis
    unfolding find_optimal_route_def square_built 1
    by (simp add: get_path_details_def route_stats_def len_segments_def dict_get_def)
qed

text \<open>
  Claim C7 fails on the code. When no component has two nodes the graph is empty, and
  \<^verbatim>\<open>find_optimal_route\<close> raises \<^verbatim>\<open>IndexError\<close> at \<^verbatim>\<open>find_closest_nodes(start, 1)[0]\<close> instead
  of returning a result with \<^verbatim>\<open>success = False\<close>: on a router whose only component has
  one node, and on one with no component at all.
\<close>

theorem no_component_route_raises:
  "graph (create_enhanced_graph lone_router ''distance'' 2) = Some [] \<and>
   find_optimal_route decimal_float lone_router ''0,0'' ''10,10'' ''distance'' = Some (Inl IndexError) \<and>
   find_optimal_route decimal_float (square_router\<lparr>connected_components := []\<rparr>) ''0,0'' ''10,10'' ''safety''
     = Some (Inl IndexError)"
proof -
  have p: "parse_xy decimal_float ''0,0'' = Inr (0, 0)"
    by (simp add: parse_xy_def decimal_float_def)
  have 1: "filter (\<lambda>comp. 2 \<le> int (fcard comp)) (connected_components lone_router) = []"
    by (simp add: lone_router_def fcard_finsert_if fcard_fempty)
  have 2: "filter (\<lambda>comp. 2 \<le> int (fcard comp))
             (connected_components (square_router\<lparr>connected_components := []\<rparr>)) = []"
    by simp
  show ?thesis
    unfolding find_optimal_route_no_component [OF 1] find_optimal_route_no_component [OF 2] p
    by (simp add: lone_built)
qed

section \<open>Paths and predecessor chains\<close>

lemma path_cost_snoc:
  "wf_graph g \<Longrightarrow> path_cost g p = Some c \<Longrightarrow> nx_get_edge g (last p) v = Some e \<Longrightarrow>
   path_cost g (p @ [v]) = Some (c + weight e)"
proof (induction g p arbitrary: c rule: path_cost.induct)
  case (1 g)
  then show ?case by simp
next
  case (2 g u)
  then have "nx_contains g v"
    unfolding wf_graph_def nx_contains_iff by auto
  with 2 show ?case
    by (simp split: if_splits)
next
  case (3 g u w p)
  then show ?case
    by (auto split: option.splits)
qed

lemma walk_prepend:
  assumes "nx_get_edge g s y = Some e"
  shows "walk g y t c \<Longrightarrow> walk g s t (weight e + c)"
proof (induction rule: walk.induct)
  case walk_start
  from assms have "nx_contains g s"
    by (simp add: nx_contains_iff nx_get_edge_node)
  then have "walk g s s 0" by (rule walk.walk_start)
  from walk.walk_step [OF this assms] show ?case by simp
next
  case (walk_step u c v e')
  from walk.walk_step [OF walk_step.IH walk_step.hyps(2)]
  show ?case by (simp add: add.assoc)
qed

lemma path_cost_walk:
  "path_cost g p = Some c \<Longrightarrow> walk g (hd p) (last p) c"
proof (induction g p arbitrary: c rule: path_cost.induct)
  case (1 g)
  then show ?case by simp
next
  case (2 g v)
  then show ?case by (simp add: walk_start split: if_splits)
next
  case (3 g u v p)
  from "3.prems" obtain e c' where e: "nx_get_edge g u v = Some e"
    and c': "path_cost g (v # p) = Some c'" and c: "c = weight e + c'"
    by (auto split: option.splits)
  from "3.IH" [OF e c'] have "walk g v (last (v # p)) c'" by simp
  from walk_prepend [OF e this] c show ?case by simp
qed

lemma route_walk: "route g s t p \<Longrightarrow> path_cost g p = Some c \<Longrightarrow> walk g s t c"
  using path_cost_walk [of g p c] by (auto simp: route_def)

lemma walk_route: "walk g s t c \<Longrightarrow> wf_graph g \<Longrightarrow> \<exists>p. route g s t p \<and> path_cost g p = Some c"
proof (induction rule: walk.induct)
  case walk_start
  then have "route g s s [s] \<and> path_cost g [s] = Some 0"
    by (simp add: route_def)
  then show ?case by blast
next
  case (walk_step u c v e)
  then obtain p where p: "route g s u p" "path_cost g p = Some c" by blast
  then have "last p = u" "p \<noteq> []" "hd p = s" by (simp_all add: route_def)
  with path_cost_snoc [OF walk_step.prems p(2), of v e] walk_step.hyps(2)
  have "route g s v (p @ [v]) \<and> path_cost g (p @ [v]) = Some (c + weight e)"
    by (simp add: route_def)
  then show ?case by blast
qed

lemma pchain_last: "pchain prev v p \<Longrightarrow> p \<noteq> [] \<and> last p = v"
  by (induction rule: pchain.induct) simp_all

lemma pchain_upd:
  "pchain prev n p \<Longrightarrow> v \<notin> set p \<Longrightarrow> pchain (prev(v \<mapsto> x)) n p"
proof (induction rule: pchain.induct)
  case (pchain_start n)
  then show ?case by (simp add: pchain.pchain_start)
next
  case (pchain_step n u p)
  have 1: "(prev(v \<mapsto> x)) n = Some (Some u)"
    using pchain_step.hyps(1) pchain_step.prems by auto
  have 2: "pchain (prev(v \<mapsto> x)) u p"
    by (rule pchain_step.IH) (use pchain_step.prems in simp)
  from 1 2 show ?case by (rule pchain.pchain_step)
qed

lemma walk_back_pchain:
  "pchain prev v p \<Longrightarrow> walk_back prev (Some v) acc = Some (Inr (acc @ rev p))"
proof (induction arbitrary: acc rule: pchain.induct)
  case (pchain_start v)
  then show ?case by (simp add: walk_back.simps)
next
  case (pchain_step v u p)
  from pchain_step.IH [of "acc @ [v]"] pchain_step.hyps(1)
  show ?case by (subst walk_back.simps) simp
qed

section \<open>The relaxation loop\<close>

lemma relaxed_state_simps:
  "distances (relaxed_state s u v nd) = (distances s)(v \<mapsto> Fin nd)"
  "previous (relaxed_state s u v nd) = (previous s)(v \<mapsto> Some u)"
  "set (pq (relaxed_state s u v nd)) = insert (nd, v) (set (pq s))"
  by (simp_all add: relaxed_state_def heappush_def)

lemma relax_Cons:
  "relax g V du u (v # rest) s =
     (if v \<in> V then relax g V du u rest s
      else
        (case nx_get_edge g u v of
           None \<Rightarrow> Inl KeyError
         | Some e \<Rightarrow>
             (case distances s v of
                None \<Rightarrow> Inl KeyError
              | Some d \<Rightarrow>
                  if less_pyfloat (du + weight e) d
                  then relax g V du u rest (relaxed_state s u v (du + weight e))
                  else relax g V du u rest s)))"
  by (simp add: relaxed_state_def Let_def split: option.splits)

lemma relax_rule:
  assumes "Q A s" and "set ns \<subseteq> N"
    and skip: "\<And>A s v. Q A s \<Longrightarrow> v \<in> V \<Longrightarrow> Q (insert v A) s"
    and found: "\<And>A s v. Q A s \<Longrightarrow> v \<in> N \<Longrightarrow> v \<notin> V \<Longrightarrow>
                 \<exists>e d. nx_get_edge g u v = Some e \<and> distances s v = Some d"
    and keep: "\<And>A s v e d. Q A s \<Longrightarrow> v \<notin> V \<Longrightarrow> nx_get_edge g u v = Some e \<Longrightarrow>
                 distances s v = Some d \<Longrightarrow> \<not> less_pyfloat (du + weight e) d \<Longrightarrow> Q (insert v A) s"
    and upd: "\<And>A s v e d. Q A s \<Longrightarrow> v \<notin> V \<Longrightarrow> nx_get_edge g u v = Some e \<Longrightarrow>
                 distances s v = Some d \<Longrightarrow> less_pyfloat (du + weight e) d \<Longrightarrow>
                 Q (insert v A) (relaxed_state s u v (du + weight e))"
  shows "\<exists>s'. relax g V du u ns s = Inr s' \<and> Q (A \<union> set ns) s'"
  using assms(1,2)
proof (induction ns arbitrary: A s)
  case Nil
  then show ?case by simp
next
  case (Cons v rest)
  from Cons.prems have rest: "set rest \<subseteq> N" and vN: "v \<in> N" by simp_all
  have un: "insert v A \<union> set rest = A \<union> set (v # rest)" by simp
  show ?case
  proof (cases "v \<in> V")
    case True
    from skip [OF Cons.prems(1) True] have "Q (insert v A) s" .
    from Cons.IH [OF this rest] True show ?thesis
      unfolding un by (simp only: relax_Cons if_True)
  next
    case False
    from found [OF Cons.prems(1) vN False] obtain e d
      where e: "nx_get_edge g u v = Some e" and d: "distances s v = Some d" by blast
    show ?thesis
    proof (cases "less_pyfloat (du + weight e) d")
      case True
      from upd [OF Cons.prems(1) False e d True]
      have "Q (insert v A) (relaxed_state s u v (du + weight e))" .
      from Cons.IH [OF this rest] False e d True show ?thesis
        unfolding un by (simp only: relax_Cons if_True if_False option.case)
    next
      case nless: False
      from keep [OF Cons.prems(1) False e d nless] have "Q (insert v A) s" .
      from Cons.IH [OF this rest] False e d nless show ?thesis
        unfolding un by (simp only: relax_Cons if_True if_False option.case)
    qed
  qed
qed

lemma less_pyfloat_Fin: "less_pyfloat x d \<Longrightarrow> d = Fin y \<Longrightarrow> x < y"
  by simp

lemma not_less_pyfloat: "\<not> less_pyfloat x d \<Longrightarrow> \<exists>y. d = Fin y \<and> y \<le> x"
  by (cases d) simp_all

lemma dist_keys_relaxed: "dist_keys g s \<Longrightarrow> dist_keys g (relaxed_state s u v nd)"
  by (simp add: dist_keys_def relaxed_state_simps)

lemma queue_sound_relaxed:
  assumes "queue_sound g s" and "v \<in> set (nx_nodes g)"
    and "distances s v = Some d" and "less_pyfloat nd d"
  shows "queue_sound g (relaxed_state s u v nd)"
  unfolding queue_sound_def
proof (intro allI impI)
  fix d' n
  assume "(d', n) \<in> set (pq (relaxed_state s u v nd))"
  then consider "d' = nd" "n = v" | "(d', n) \<in> set (pq s)"
    by (auto simp: relaxed_state_simps)
  then show "n \<in> set (nx_nodes g) \<and>
      (\<exists>d''. distances (relaxed_state s u v nd) n = Some (Fin d'') \<and> d'' \<le> d')"
  proof cases
    case 1
    with assms(2) show ?thesis by (simp add: relaxed_state_simps)
  next
    case 2
    with assms(1) obtain d'' where n: "n \<in> set (nx_nodes g)"
      and d'': "distances s n = Some (Fin d'')" "d'' \<le> d'"
      unfolding queue_sound_def by blast
    show ?thesis
    proof (cases "n = v")
      case True
      with d'' assms(3) have "d = Fin d''" by simp
      with assms(4) have "nd < d''" by simp
      with d''(2) n True show ?thesis by (simp add: relaxed_state_simps)
    next
      case False
      with n d'' show ?thesis by (simp add: relaxed_state_simps)
    qed
  qed
qed

lemma queue_complete_relaxed:
  "queue_complete V s \<Longrightarrow> queue_complete V (relaxed_state s u v nd)"
  unfolding queue_complete_def by (auto simp: relaxed_state_simps)

lemma chains_relaxed:
  assumes wf: "wf_graph g" and ch: "chains g start V s" and uV: "u \<in> V" and vV: "v \<notin> V"
    and du: "distances s u = Some (Fin du)" and e: "nx_get_edge g u v = Some e"
  shows "chains g start V (relaxed_state s u v (du + weight e))"
  unfolding chains_def
proof (intro allI impI)
  fix n d
  assume n: "distances (relaxed_state s u v (du + weight e)) n = Some (Fin d)"
  let ?prev = "previous (relaxed_state s u v (du + weight e))"
  from ch du obtain pu where pu: "pchain (previous s) u pu" "hd pu = start"
    "path_cost g pu = Some du" "set (butlast pu) \<subseteq> V"
    unfolding chains_def by blast
  from pchain_last [OF pu(1)] have lu: "pu \<noteq> []" "last pu = u" by simp_all
  then have "set pu = insert u (set (butlast pu))"
    by (metis append_butlast_last_id list.simps(15) rotate1.simps(2) set_rotate1)
  with pu(4) uV have puV: "set pu \<subseteq> V" by auto
  show "\<exists>p. pchain ?prev n p \<and> hd p = start \<and> path_cost g p = Some d \<and> set (butlast p) \<subseteq> V"
  proof (cases "n = v")
    case True
    with n have d: "d = du + weight e" by (simp add: relaxed_state_simps)
    from puV vV have "v \<notin> set pu" by auto
    from pchain_upd [OF pu(1) this, of "Some u"]
    have "pchain ?prev u pu" by (simp add: relaxed_state_simps)
    moreover have "?prev v = Some (Some u)" by (simp add: relaxed_state_simps)
    ultimately have "pchain ?prev v (pu @ [v])" by (rule pchain_step [rotated])
    moreover from lu pu(2) have "hd (pu @ [v]) = start" by simp
    moreover from path_cost_snoc [OF wf pu(3), of v e] e lu
    have "path_cost g (pu @ [v]) = Some (du + weight e)" by simp
    moreover from puV have "set (butlast (pu @ [v])) \<subseteq> V" by simp
    ultimately show ?thesis using True d by blast
  next
    case False
    with n have "distances s n = Some (Fin d)" by (simp add: relaxed_state_simps)
    with ch obtain p where p: "pchain (previous s) n p" "hd p = start"
      "path_cost g p = Some d" "set (butlast p) \<subseteq> V"
      unfolding chains_def by blast
    from pchain_last [OF p(1)] have lp: "p \<noteq> []" "last p = n" by simp_all
    then have "set p = insert n (set (butlast p))"
      by (metis append_butlast_last_id list.simps(15) rotate1.simps(2) set_rotate1)
    with p(4) vV False have "v \<notin> set p" by auto
    from pchain_upd [OF p(1) this, of "Some u"]
    have "pchain ?prev n p" by (simp add: relaxed_state_simps)
    with p show ?thesis by blast
  qed
qed

lemma inv_basic_relaxed:
  assumes "wf_graph g" and "inv_basic g start V s" and "u \<in> V" and "v \<notin> V"
    and "distances s u = Some (Fin du)" and "nx_get_edge g u v = Some e"
    and "distances s v = Some d" and "less_pyfloat (du + weight e) d"
  shows "inv_basic g start V (relaxed_state s u v (du + weight e))"
proof -
  from assms(1,6) have "v \<in> set (nx_nodes g)"
    unfolding wf_graph_def by blast
  with assms show ?thesis
    unfolding inv_basic_def
    by (simp add: dist_keys_relaxed queue_sound_relaxed queue_complete_relaxed chains_relaxed)
qed

section \<open>The search loop, for any weights\<close>

lemma heappop_props:
  assumes "h \<noteq> []"
  shows "fst (heappop h) \<in> set h"
    and "\<And>x. x \<in> set h \<Longrightarrow> fst (heappop h) \<le> x"
    and "set (snd (heappop h)) \<subseteq> set h"
    and "\<And>x. x \<in> set h \<Longrightarrow> x \<noteq> fst (heappop h) \<Longrightarrow> x \<in> set (snd (heappop h))"
  using assms by (auto simp: heappop_def dest: set_remove1_subset [THEN subsetD]
      simp add: in_set_remove1)

lemma prod_le_fst: "(a::real, b::node) \<le> (c, d) \<Longrightarrow> a \<le> c"
  by (auto simp: less_eq_prod_def)

lemma popped_dist:
  assumes "inv_basic g start V s" and "pq s \<noteq> []" and "snd (fst (heappop (pq s))) \<notin> V"
  shows "distances s (snd (fst (heappop (pq s)))) = Some (Fin (fst (fst (heappop (pq s)))))"
    and "snd (fst (heappop (pq s))) \<in> set (nx_nodes g)"
proof -
  obtain d u where du: "fst (heappop (pq s)) = (d, u)" by (cases "fst (heappop (pq s))")
  with heappop_props(1) [OF assms(2)] have mem: "(d, u) \<in> set (pq s)" by simp
  from assms(1) mem obtain d' where u: "u \<in> set (nx_nodes g)"
    and d': "distances s u = Some (Fin d')" "d' \<le> d"
    unfolding inv_basic_def queue_sound_def by blast
  from assms(3) du have "u \<notin> V" by simp
  with assms(1) d'(1) have "(d', u) \<in> set (pq s)"
    unfolding inv_basic_def queue_complete_def by blast
  from heappop_props(2) [OF assms(2) this] du have "(d, u) \<le> (d', u)"
    by simp
  then have "d \<le> d'"
    by (rule prod_le_fst)
  with d' have "distances s u = Some (Fin d)" by simp
  with du u show "distances s (snd (fst (heappop (pq s)))) = Some (Fin (fst (fst (heappop (pq s)))))"
    and "snd (fst (heappop (pq s))) \<in> set (nx_nodes g)"
    by simp_all
qed

lemma inv_basic_popped:
  assumes "inv_basic g start V s" and "pq s \<noteq> []"
  shows "inv_basic g start (insert (snd (fst (heappop (pq s)))) V) (s\<lparr>pq := snd (heappop (pq s))\<rparr>)"
proof -
  let ?u = "snd (fst (heappop (pq s)))"
  let ?s1 = "s\<lparr>pq := snd (heappop (pq s))\<rparr>"
  from assms(1) have "dist_keys g ?s1"
    by (simp add: inv_basic_def dist_keys_def)
  moreover from assms(1) heappop_props(3) [OF assms(2)] have "queue_sound g ?s1"
    unfolding inv_basic_def queue_sound_def by auto
  moreover have "queue_complete (insert ?u V) ?s1"
    unfolding queue_complete_def
  proof (intro allI impI)
    fix n d
    assume n: "n \<notin> insert ?u V" and d: "distances ?s1 n = Some (Fin d)"
    with assms(1) have "(d, n) \<in> set (pq s)"
      unfolding inv_basic_def queue_complete_def by simp
    moreover from n have "(d, n) \<noteq> fst (heappop (pq s))"
      by (metis insertI1 snd_conv)
    ultimately show "(d, n) \<in> set (pq ?s1)"
      using heappop_props(4) [OF assms(2)] by simp
  qed
  moreover from assms(1) have "chains g start (insert ?u V) ?s1"
    unfolding inv_basic_def chains_def by (simp, blast)
  ultimately show ?thesis by (simp add: inv_basic_def)
qed

lemma nx_neighbors_edge:
  assumes "nx_neighbors g u = Inr ns"
  shows "v \<in> set ns \<longleftrightarrow> nx_get_edge g u v \<noteq> None"
proof -
  from assms obtain nbrs where "map_of g u = Some nbrs" "ns = map fst nbrs"
    by (auto simp: nx_neighbors_def split: option.splits)
  then show ?thesis
    by (simp add: nx_get_edge_def map_of_eq_None_iff)
qed

lemma nx_neighbors_Inr: "u \<in> set (nx_nodes g) \<Longrightarrow> \<exists>ns. nx_neighbors g u = Inr ns"
  by (auto simp: nx_neighbors_def nx_nodes_def map_of_eq_None_iff split: option.splits)

lemma relax_basic:
  assumes wf: "wf_graph g" and inv: "inv_basic g start V s" and uV: "u \<in> V"
    and du: "distances s u = Some (Fin du)" and ns: "nx_neighbors g u = Inr ns"
  shows "\<exists>s'. relax g V du u ns s = Inr s' \<and> inv_basic g start V s'"
proof -
  let ?Q = "\<lambda>(A::node set) s. inv_basic g start V s \<and> distances s u = Some (Fin du)"
  have "\<exists>s'. relax g V du u ns s = Inr s' \<and> ?Q ({} \<union> set ns) s'"
  proof (rule relax_rule [where Q = ?Q and N = "set ns"])
    show "?Q {} s" using inv du by simp
    show "set ns \<subseteq> set ns" by simp
  next
    fix A s v
    assume "?Q A s" "v \<in> V"
    then show "?Q (insert v A) s" by simp
  next
    fix A s v
    assume Q: "?Q A s" and v: "v \<in> set ns" "v \<notin> V"
    from v(1) ns obtain e where e: "nx_get_edge g u v = Some e"
      by (auto simp: nx_neighbors_edge)
    with wf have "v \<in> set (nx_nodes g)" unfolding wf_graph_def by blast
    with Q have "distances s v \<noteq> None"
      unfolding inv_basic_def dist_keys_def by blast
    with e show "\<exists>e d. nx_get_edge g u v = Some e \<and> distances s v = Some d" by auto
  next
    fix A s v e d
    assume "?Q A s"
    then show "?Q (insert v A) s" by simp
  next
    fix A s v e d
    assume Q: "?Q A s" and v: "v \<notin> V" and e: "nx_get_edge g u v = Some e"
      and d: "distances s v = Some d" and less: "less_pyfloat (du + weight e) d"
    from Q have inv': "inv_basic g start V s" and du': "distances s u = Some (Fin du)" by simp_all
    from inv_basic_relaxed [OF wf inv' uV v du' e d less]
    have "inv_basic g start V (relaxed_state s u v (du + weight e))" .
    moreover from uV v have "u \<noteq> v" by auto
    with du' have "distances (relaxed_state s u v (du + weight e)) u = Some (Fin du)"
      by (simp add: relaxed_state_simps)
    ultimately show "?Q (insert v A) (relaxed_state s u v (du + weight e))" by simp
  qed
  then show ?thesis by blast
qed

lemma dijkstra_loop_basic:
  "wf_graph g \<Longrightarrow> inv_basic g start V s \<Longrightarrow>
   \<exists>s' V'. dijkstra_loop g t V s = Inr s' \<and> inv_basic g start V' s'"
proof (induction g t V s rule: dijkstra_loop.induct)
  case (1 g t V s)
  let ?d = "fst (fst (heappop (pq s)))"
  let ?u = "snd (fst (heappop (pq s)))"
  let ?s1 = "s\<lparr>pq := snd (heappop (pq s))\<rparr>"
  show ?case
  proof (cases "pq s = []")
    case True
    with "1.prems" show ?thesis
      by (subst dijkstra_loop.simps) auto
  next
    case ne: False
    from inv_basic_popped [OF "1.prems"(2) ne]
    have inv1: "inv_basic g start (insert ?u V) ?s1" .
    show ?thesis
    proof (cases "?u \<in> V")
      case True
      then have "insert ?u V = V" by auto
      with inv1 have "inv_basic g start V ?s1" by simp
      from "1.IH"(1) [OF ne refl refl refl True "1.prems"(1) this] ne True
      show ?thesis
        by (subst dijkstra_loop.simps) (simp add: Let_def)
    next
      case unv: False
      show ?thesis
      proof (cases "?u = t")
        case True
        with ne unv inv1 show ?thesis
          by (subst dijkstra_loop.simps) (auto simp: Let_def)
      next
        case False
        from popped_dist [OF "1.prems"(2) ne unv]
        have du: "distances ?s1 ?u = Some (Fin ?d)" and un: "?u \<in> set (nx_nodes g)"
          by simp_all
        from nx_neighbors_Inr [OF un] obtain ns where ns: "nx_neighbors g ?u = Inr ns" by blast
        from relax_basic [OF "1.prems"(1) inv1 _ du ns]
        obtain s2 where s2: "relax g (insert ?u V) ?d ?u ns ?s1 = Inr s2"
          and inv2: "inv_basic g start (insert ?u V) s2" by auto
        from "1.IH"(2) [OF ne refl refl refl unv False ns s2 "1.prems"(1) inv2]
        show ?thesis
          using ne unv False ns s2
          by (subst dijkstra_loop.simps) (simp add: Let_def)
      qed
    qed
  qed
qed

lemma map_of_const:
  "map_of (map (\<lambda>n. (n, c)) ns) n = (if n \<in> set ns then Some c else None)"
  by (induction ns) auto

lemma inv_basic_init:
  assumes "nx_contains g start"
  shows "inv_basic g start {} (init_dstate g start)"
proof -
  have D: "distances (init_dstate g start) n = Some (Fin d) \<longleftrightarrow> n = start \<and> d = 0" for n d
    by (simp add: init_dstate_def map_of_const)
  have "dist_keys g (init_dstate g start)"
    by (simp add: dist_keys_def init_dstate_def map_of_const)
  moreover from assms have "queue_sound g (init_dstate g start)"
    by (simp add: queue_sound_def D nx_contains_iff) (simp add: init_dstate_def)
  moreover have "queue_complete {} (init_dstate g start)"
    by (simp add: queue_complete_def D) (simp add: init_dstate_def)
  moreover have "chains g start {} (init_dstate g start)"
    unfolding chains_def
  proof (intro allI impI)
    fix n d
    assume "distances (init_dstate g start) n = Some (Fin d)"
    then have n: "n = start" "d = 0" by (simp_all add: D)
    from assms have "previous (init_dstate g start) start = Some None"
      by (simp add: init_dstate_def map_of_const nx_contains_iff)
    then have "pchain (previous (init_dstate g start)) start [start]"
      by (rule pchain_start)
    with assms n show "\<exists>p. pchain (previous (init_dstate g start)) n p \<and> hd p = start \<and>
        path_cost g p = Some d \<and> set (butlast p) \<subseteq> {}"
      by (intro exI [of _ "[start]"]) simp
  qed
  ultimately show ?thesis by (simp add: inv_basic_def)
qed

lemma dijkstra_on_nodes:
  assumes "graph r = Some g" and "nx_contains g s" and "nx_contains g t"
  shows "dijkstra_shortest_path to_float r s t =
     (case dijkstra_loop g t {} (init_dstate g s) of
        Inl e \<Rightarrow> Some (Inl e)
      | Inr st \<Rightarrow>
          (case distances st t of
             None \<Rightarrow> Some (Inl KeyError)
           | Some PInf \<Rightarrow> Some (Inr ([], PInf, []))
           | Some (Fin c) \<Rightarrow>
               (case walk_back (previous st) (Some t) [] of
                  None \<Rightarrow> None
                | Some (Inl e) \<Rightarrow> Some (Inl e)
                | Some (Inr rpath) \<Rightarrow>
                    (case get_path_details r (rev rpath) of
                       Inl e \<Rightarrow> Some (Inl e)
                     | Inr pd \<Rightarrow> Some (Inr (rev rpath, Fin c, pd))))))"
  using assms
  by (simp add: dijkstra_shortest_path_def snap_to_graph_def Let_def
      split: sum.splits option.splits pyfloat.splits)

lemma get_path_details_Inr: "graph r = Some g \<Longrightarrow> \<exists>det. get_path_details r p = Inr det"
  by (simp add: get_path_details_eq)

lemma dijkstra_result:
  assumes g: "graph r = Some g" and wf: "wf_graph g"
    and s: "nx_contains g s" and t: "nx_contains g t"
  shows "\<exists>st V. dijkstra_loop g t {} (init_dstate g s) = Inr st \<and> inv_basic g s V st \<and>
           (distances st t = Some PInf \<and>
              dijkstra_shortest_path to_float r s t = Some (Inr ([], PInf, []))
            \<or> (\<exists>c p det. distances st t = Some (Fin c) \<and>
                  dijkstra_shortest_path to_float r s t = Some (Inr (p, Fin c, det)) \<and>
                  route g s t p \<and> path_cost g p = Some c))"
proof -
  from dijkstra_loop_basic [OF wf inv_basic_init [OF s], of t]
  obtain st V where st: "dijkstra_loop g t {} (init_dstate g s) = Inr st"
    and inv: "inv_basic g s V st" by blast
  from inv t have "distances st t \<noteq> None"
    by (simp add: inv_basic_def dist_keys_def nx_contains_iff)
  then consider "distances st t = Some PInf" | c where "distances st t = Some (Fin c)"
    by (metis not_None_eq pyfloat.exhaust)
  then show ?thesis
  proof cases
    case 1
    then have "dijkstra_shortest_path to_float r s t = Some (Inr ([], PInf, []))"
      by (simp add: dijkstra_on_nodes [OF g s t] st)
    with st inv 1 show ?thesis by blast
  next
    case 2
    with inv obtain p where p: "pchain (previous st) t p" "hd p = s" "path_cost g p = Some c"
      unfolding inv_basic_def chains_def by blast
    from pchain_last [OF p(1)] p have route: "route g s t p"
      by (simp add: route_def)
    from walk_back_pchain [OF p(1), of "[]"]
    have wb: "walk_back (previous st) (Some t) [] = Some (Inr (rev p))" by simp
    from get_path_details_Inr [OF g, of p] obtain det where "get_path_details r p = Inr det" ..
    with wb 2 have "dijkstra_shortest_path to_float r s t = Some (Inr (p, Fin c, det))"
      by (simp add: dijkstra_on_nodes [OF g s t] st)
    with st inv 2 route p(3) show ?thesis by blast
  qed
qed

section \<open>The search loop, for weights that are not negative\<close>

lemma distances_relaxed_other:
  "x \<noteq> v \<Longrightarrow> distances (relaxed_state s u v nd) x = distances s x"
  by (simp add: relaxed_state_simps)

lemma start_bound_relaxed:
  assumes "start_bound start s" and "distances s v = Some d" and "less_pyfloat nd d"
  shows "start_bound start (relaxed_state s u v nd)"
proof (cases "v = start")
  case True
  from assms(1) obtain d0 where "distances s start = Some (Fin d0)" "d0 \<le> 0"
    unfolding start_bound_def by blast
  with assms(2,3) True have "nd \<le> 0" by auto
  with True show ?thesis by (simp add: start_bound_def relaxed_state_simps)
next
  case False
  with assms(1) show ?thesis by (simp add: start_bound_def relaxed_state_simps)
qed

lemma edges_relaxed_relaxed:
  assumes "edges_relaxed g V s" and "v \<notin> V" and "distances s v = Some d" and "less_pyfloat nd d"
  shows "edges_relaxed g V (relaxed_state s u v nd)"
  unfolding edges_relaxed_def
proof (intro ballI allI impI)
  fix x n e
  assume x: "x \<in> V" and e: "nx_get_edge g x n = Some e"
  with assms(1) obtain dx dn where dx: "distances s x = Some (Fin dx)"
    and dn: "distances s n = Some (Fin dn)" "dn \<le> dx + weight e"
    unfolding edges_relaxed_def by blast
  from x assms(2) have xv: "x \<noteq> v" by auto
  show "\<exists>dx dv. distances (relaxed_state s u v nd) x = Some (Fin dx) \<and>
      distances (relaxed_state s u v nd) n = Some (Fin dv) \<and> dv \<le> dx + weight e"
  proof (cases "n = v")
    case True
    with dn assms(3,4) have "nd < dn" by auto
    with dn(2) dx xv True show ?thesis
      by (simp add: relaxed_state_simps)
  next
    case False
    with dx dn xv show ?thesis by (simp add: relaxed_state_simps)
  qed
qed

lemma node_relaxed_relaxed:
  assumes "node_relaxed g u du A s" and "nx_get_edge g u v = Some e"
  shows "node_relaxed g u du (insert v A) (relaxed_state s u' v (du + weight e))"
  unfolding node_relaxed_def
proof (intro ballI allI impI)
  fix n e'
  assume n: "n \<in> insert v A" and e': "nx_get_edge g u n = Some e'"
  show "\<exists>dv. distances (relaxed_state s u' v (du + weight e)) n = Some (Fin dv) \<and> dv \<le> du + weight e'"
  proof (cases "n = v")
    case True
    with e' assms(2) have "e' = e" by simp
    with True show ?thesis by (simp add: relaxed_state_simps)
  next
    case False
    with n have "n \<in> A" by simp
    with assms(1) e' False show ?thesis
      unfolding node_relaxed_def by (simp add: relaxed_state_simps)
  qed
qed

lemma queue_above_relaxed:
  assumes "queue_above V s" and "below V du s" and "v \<notin> V" and "0 \<le> w"
  shows "queue_above V (relaxed_state s u v (du + w))"
  unfolding queue_above_def
proof (intro ballI allI impI)
  fix x d n
  assume x: "x \<in> V" and dn: "(d, n) \<in> set (pq (relaxed_state s u v (du + w)))"
  from x assms(3) have xv: "x \<noteq> v" by auto
  from dn consider "d = du + w" | "(d, n) \<in> set (pq s)"
    by (auto simp: relaxed_state_simps)
  then show "\<exists>dx. distances (relaxed_state s u v (du + w)) x = Some (Fin dx) \<and> dx \<le> d"
  proof cases
    case 1
    from assms(2) x obtain dx where "distances s x = Some (Fin dx)" "dx \<le> du"
      unfolding below_def by blast
    with 1 assms(4) xv show ?thesis by (simp add: relaxed_state_simps)
  next
    case 2
    with assms(1) x obtain dx where "distances s x = Some (Fin dx)" "dx \<le> d"
      unfolding queue_above_def by blast
    with xv show ?thesis by (simp add: relaxed_state_simps)
  qed
qed

lemma below_relaxed: "below V du s \<Longrightarrow> v \<notin> V \<Longrightarrow> below V du (relaxed_state s u v nd)"
  unfolding below_def by (auto simp: relaxed_state_simps)

lemma relax_opt:
  assumes wf: "wf_graph g" and nn: "nonneg_weights g"
    and inv: "inv_basic g start V s" and uV: "u \<in> V"
    and du: "distances s u = Some (Fin du)" and ns: "nx_neighbors g u = Inr ns"
    and sb: "start_bound start s" and er: "edges_relaxed g (V - {u}) s"
    and qa: "queue_above V s" and bl: "below V du s"
  shows "\<exists>s'. relax g V du u ns s = Inr s' \<and> inv_basic g start V s' \<and> inv_opt g start V s'"
proof -
  let ?Q = "\<lambda>A s. inv_basic g start V s \<and> distances s u = Some (Fin du) \<and> start_bound start s \<and>
      edges_relaxed g (V - {u}) s \<and> node_relaxed g u du A s \<and> queue_above V s \<and> below V du s"
  have "\<exists>s'. relax g V du u ns s = Inr s' \<and> ?Q ({} \<union> set ns) s'"
  proof (rule relax_rule [where Q = ?Q and N = "set ns"])
    show "?Q {} s" using inv du sb er qa bl by (simp add: node_relaxed_def)
    show "set ns \<subseteq> set ns" by simp
  next
    fix A s v
    assume Q: "?Q A s" and v: "v \<in> V"
    have "node_relaxed g u du (insert v A) s"
      unfolding node_relaxed_def
    proof (intro ballI allI impI)
      fix n e
      assume n: "n \<in> insert v A" and e: "nx_get_edge g u n = Some e"
      show "\<exists>dv. distances s n = Some (Fin dv) \<and> dv \<le> du + weight e"
      proof (cases "n = v")
        case True
        with Q v obtain dv where "distances s n = Some (Fin dv)" "dv \<le> du"
          unfolding below_def by blast
        moreover from nn e have "0 \<le> weight e" unfolding nonneg_weights_def by blast
        ultimately show ?thesis by auto
      next
        case False
        with n Q e show ?thesis unfolding node_relaxed_def by auto
      qed
    qed
    with Q show "?Q (insert v A) s" by simp
  next
    fix A s v
    assume Q: "?Q A s" and v: "v \<in> set ns" "v \<notin> V"
    from v(1) ns obtain e where e: "nx_get_edge g u v = Some e"
      by (auto simp: nx_neighbors_edge)
    with wf have "v \<in> set (nx_nodes g)" unfolding wf_graph_def by blast
    with Q have "distances s v \<noteq> None"
      unfolding inv_basic_def dist_keys_def by blast
    with e show "\<exists>e d. nx_get_edge g u v = Some e \<and> distances s v = Some d" by auto
  next
    fix A s v e d
    assume Q: "?Q A s" and v: "v \<notin> V" and e: "nx_get_edge g u v = Some e"
      and d: "distances s v = Some d" and nless: "\<not> less_pyfloat (du + weight e) d"
    from not_less_pyfloat [OF nless] obtain y where y: "d = Fin y" "y \<le> du + weight e" by blast
    have "node_relaxed g u du (insert v A) s"
      unfolding node_relaxed_def
    proof (intro ballI allI impI)
      fix n e'
      assume n: "n \<in> insert v A" and e': "nx_get_edge g u n = Some e'"
      show "\<exists>dv. distances s n = Some (Fin dv) \<and> dv \<le> du + weight e'"
      proof (cases "n = v")
        case True
        with e e' have "e' = e" by simp
        with True d y show ?thesis by simp
      next
        case False
        with n Q e' show ?thesis unfolding node_relaxed_def by auto
      qed
    qed
    with Q show "?Q (insert v A) s" by simp
  next
    fix A s v e d
    assume Q: "?Q A s" and v: "v \<notin> V" and e: "nx_get_edge g u v = Some e"
      and d: "distances s v = Some d" and less: "less_pyfloat (du + weight e) d"
    let ?s' = "relaxed_state s u v (du + weight e)"
    from Q have inv': "inv_basic g start V s" and du': "distances s u = Some (Fin du)" by simp_all
    from nn e have w: "0 \<le> weight e" unfolding nonneg_weights_def by blast
    from uV v have uv: "u \<noteq> v" by auto
    from v have v': "v \<notin> V - {u}" by simp
    have "inv_basic g start V ?s'"
      by (rule inv_basic_relaxed [OF wf inv' uV v du' e d less])
    moreover from du' uv have "distances ?s' u = Some (Fin du)"
      by (simp add: relaxed_state_simps)
    moreover from Q d less have "start_bound start ?s'"
      by (simp add: start_bound_relaxed)
    moreover from Q v' d less have "edges_relaxed g (V - {u}) ?s'"
      by (simp add: edges_relaxed_relaxed)
    moreover from Q e have "node_relaxed g u du (insert v A) ?s'"
      by (simp add: node_relaxed_relaxed)
    moreover from Q v w have "queue_above V ?s'"
      by (simp add: queue_above_relaxed)
    moreover from Q v have "below V du ?s'"
      by (simp add: below_relaxed)
    ultimately show "?Q (insert v A) ?s'" by simp
  qed
  then obtain s' where s': "relax g V du u ns s = Inr s'" and Q: "?Q (set ns) s'" by auto
  have "edges_relaxed g V s'"
    unfolding edges_relaxed_def
  proof (intro ballI allI impI)
    fix x v e
    assume x: "x \<in> V" and e: "nx_get_edge g x v = Some e"
    show "\<exists>dx dv. distances s' x = Some (Fin dx) \<and> distances s' v = Some (Fin dv) \<and>
        dv \<le> dx + weight e"
    proof (cases "x = u")
      case True
      with e ns have "v \<in> set ns" by (simp add: nx_neighbors_edge)
      with Q e True show ?thesis unfolding node_relaxed_def by blast
    next
      case False
      with x have "x \<in> V - {u}" by simp
      with Q e show ?thesis unfolding edges_relaxed_def by blast
    qed
  qed
  with s' Q show ?thesis by (auto simp: inv_opt_def)
qed

lemma inv_opt_init: "inv_opt g start {} (init_dstate g start)"
  by (simp add: inv_opt_def start_bound_def edges_relaxed_def queue_above_def init_dstate_def)

lemma lower_bound:
  assumes nn: "nonneg_weights g" and inv: "inv_basic g start V s" and opt: "inv_opt g start V s"
  shows "walk g start v c \<Longrightarrow>
     (v \<in> V \<longrightarrow> (\<exists>d. distances s v = Some (Fin d) \<and> d \<le> c)) \<and>
     (v \<notin> V \<longrightarrow> (\<exists>d n. (d, n) \<in> set (pq s) \<and> n \<notin> V \<and> d \<le> c))"
proof (induction rule: walk.induct)
  case walk_start
  from opt obtain d0 where d0: "distances s start = Some (Fin d0)" "d0 \<le> 0"
    unfolding inv_opt_def start_bound_def by blast
  show ?case
  proof (intro conjI impI)
    assume "start \<in> V"
    with d0 show "\<exists>d. distances s start = Some (Fin d) \<and> d \<le> 0" by blast
  next
    assume "start \<notin> V"
    with inv d0 have "(d0, start) \<in> set (pq s)"
      unfolding inv_basic_def queue_complete_def by blast
    with d0 \<open>start \<notin> V\<close> show "\<exists>d n. (d, n) \<in> set (pq s) \<and> n \<notin> V \<and> d \<le> 0" by blast
  qed
next
  case (walk_step u c v e)
  from nn walk_step.hyps(2) have w: "0 \<le> weight e" unfolding nonneg_weights_def by blast
  have bound: "\<exists>d. distances s v = Some (Fin d) \<and> d \<le> c + weight e" if "u \<in> V"
  proof -
    from walk_step.IH that obtain du' where "distances s u = Some (Fin du')" "du' \<le> c" by blast
    moreover from opt that walk_step.hyps(2)
    obtain dx dv where "distances s u = Some (Fin dx)" "distances s v = Some (Fin dv)"
      "dv \<le> dx + weight e"
      unfolding inv_opt_def edges_relaxed_def by blast
    ultimately show ?thesis by auto
  qed
  have queue: "\<exists>d n. (d, n) \<in> set (pq s) \<and> n \<notin> V \<and> d \<le> c + weight e" if "u \<notin> V"
  proof -
    from walk_step.IH that obtain d n where "(d, n) \<in> set (pq s)" "n \<notin> V" "d \<le> c" by blast
    with w show ?thesis by (intro exI [of _ d] exI [of _ n]) simp
  qed
  show ?case
  proof (intro conjI impI)
    assume v: "v \<in> V"
    show "\<exists>d. distances s v = Some (Fin d) \<and> d \<le> c + weight e"
    proof (cases "u \<in> V")
      case True
      then show ?thesis by (rule bound)
    next
      case False
      from queue [OF False] obtain d n where dn: "(d, n) \<in> set (pq s)" "d \<le> c + weight e" by blast
      with opt v obtain dv where "distances s v = Some (Fin dv)" "dv \<le> d"
        unfolding inv_opt_def queue_above_def by blast
      with dn show ?thesis by auto
    qed
  next
    assume v: "v \<notin> V"
    show "\<exists>d n. (d, n) \<in> set (pq s) \<and> n \<notin> V \<and> d \<le> c + weight e"
    proof (cases "u \<in> V")
      case True
      from bound [OF True] obtain dv where dv: "distances s v = Some (Fin dv)" "dv \<le> c + weight e"
        by blast
      with inv v have "(dv, v) \<in> set (pq s)"
        unfolding inv_basic_def queue_complete_def by blast
      with v dv show ?thesis by blast
    next
      case False
      then show ?thesis by (rule queue)
    qed
  qed
qed

lemma inv_opt_popped:
  assumes "inv_opt g start V s" and "pq s \<noteq> []"
  shows "inv_opt g start V (s\<lparr>pq := snd (heappop (pq s))\<rparr>)"
proof -
  from heappop_props(3) [OF assms(2)] assms(1) show ?thesis
    unfolding inv_opt_def start_bound_def edges_relaxed_def queue_above_def
    by (simp add: subset_iff) blast
qed

lemma popped_opt:
  assumes inv: "inv_basic g start V s" and opt: "inv_opt g start V s" and ne: "pq s \<noteq> []"
    and unv: "snd (fst (heappop (pq s))) \<notin> V"
  shows "queue_above (insert (snd (fst (heappop (pq s)))) V) (s\<lparr>pq := snd (heappop (pq s))\<rparr>)"
    and "below (insert (snd (fst (heappop (pq s)))) V) (fst (fst (heappop (pq s))))
           (s\<lparr>pq := snd (heappop (pq s))\<rparr>)"
proof -
  let ?d = "fst (fst (heappop (pq s)))"
  let ?u = "snd (fst (heappop (pq s)))"
  let ?s1 = "s\<lparr>pq := snd (heappop (pq s))\<rparr>"
  from popped_dist(1) [OF inv ne unv] have du: "distances s ?u = Some (Fin ?d)" .
  have mem: "(?d, ?u) \<in> set (pq s)"
    using heappop_props(1) [OF ne] by simp
  have least: "?d \<le> d'" if "(d', n) \<in> set (pq s)" for d' n
  proof -
    from heappop_props(2) [OF ne that] have "(?d, ?u) \<le> (d', n)" by simp
    then show ?thesis by (rule prod_le_fst)
  qed
  show "queue_above (insert ?u V) ?s1"
    unfolding queue_above_def
  proof (intro ballI allI impI)
    fix x d' n
    assume x: "x \<in> insert ?u V" and "(d', n) \<in> set (pq ?s1)"
    with heappop_props(3) [OF ne] have dn: "(d', n) \<in> set (pq s)" by auto
    show "\<exists>dx. distances ?s1 x = Some (Fin dx) \<and> dx \<le> d'"
    proof (cases "x = ?u")
      case True
      with du least [OF dn] show ?thesis by simp
    next
      case False
      with x have "x \<in> V" by simp
      with opt dn obtain dx where "distances s x = Some (Fin dx)" "dx \<le> d'"
        unfolding inv_opt_def queue_above_def by blast
      then show ?thesis by simp
    qed
  qed
  show "below (insert ?u V) ?d ?s1"
    unfolding below_def
  proof (intro ballI)
    fix x
    assume x: "x \<in> insert ?u V"
    show "\<exists>dx. distances ?s1 x = Some (Fin dx) \<and> dx \<le> ?d"
    proof (cases "x = ?u")
      case True
      with du show ?thesis by simp
    next
      case False
      with x have "x \<in> V" by simp
      with opt mem obtain dx where "distances s x = Some (Fin dx)" "dx \<le> ?d"
        unfolding inv_opt_def queue_above_def by blast
      then show ?thesis by simp
    qed
  qed
qed

lemma dijkstra_loop_opt:
  "wf_graph g \<Longrightarrow> nonneg_weights g \<Longrightarrow> inv_basic g start V s \<Longrightarrow> inv_opt g start V s \<Longrightarrow>
   dijkstra_loop g t V s = Inr s' \<Longrightarrow> walk g start t c \<Longrightarrow>
   \<exists>d. distances s' t = Some (Fin d) \<and> d \<le> c"
proof (induction g t V s rule: dijkstra_loop.induct)
  case (1 g t V s)
  let ?d = "fst (fst (heappop (pq s)))"
  let ?u = "snd (fst (heappop (pq s)))"
  let ?s1 = "s\<lparr>pq := snd (heappop (pq s))\<rparr>"
  note wf = "1.prems"(1) and nn = "1.prems"(2) and inv = "1.prems"(3) and opt = "1.prems"(4)
    and res = "1.prems"(5) and walk = "1.prems"(6)
  note lb = lower_bound [OF nn inv opt walk]
  show ?case
  proof (cases "pq s = []")
    case True
    with res have "s' = s"
      by (subst (asm) dijkstra_loop.simps) simp
    with lb True show ?thesis by auto
  next
    case ne: False
    from inv_basic_popped [OF inv ne]
    have inv1: "inv_basic g start (insert ?u V) ?s1" .
    show ?thesis
    proof (cases "?u \<in> V")
      case True
      then have "insert ?u V = V" by auto
      with inv1 have inv1': "inv_basic g start V ?s1" by simp
      from res ne True have "dijkstra_loop g t V ?s1 = Inr s'"
        by (subst (asm) dijkstra_loop.simps) (simp add: Let_def)
      from "1.IH"(1) [OF ne refl refl refl True wf nn inv1' inv_opt_popped [OF opt ne] this walk]
      show ?thesis .
    next
      case unv: False
      from popped_dist [OF inv ne unv]
      have du: "distances ?s1 ?u = Some (Fin ?d)" and un: "?u \<in> set (nx_nodes g)"
        by simp_all
      show ?thesis
      proof (cases "?u = t")
        case True
        with res ne unv have "s' = ?s1"
          by (subst (asm) dijkstra_loop.simps) (simp add: Let_def)
        with du True have dt: "distances s' t = Some (Fin ?d)" by simp
        from unv True have "t \<notin> V" by simp
        with lb obtain d2 n where dn: "(d2, n) \<in> set (pq s)" "d2 \<le> c" by blast
        from heappop_props(2) [OF ne dn(1)] have "(?d, ?u) \<le> (d2, n)" by simp
        then have "?d \<le> d2" by (rule prod_le_fst)
        with dn(2) dt show ?thesis by simp
      next
        case False
        from nx_neighbors_Inr [OF un] obtain ns where ns: "nx_neighbors g ?u = Inr ns" by blast
        from opt have sb: "start_bound start ?s1"
          by (simp add: inv_opt_def start_bound_def)
        from unv have "insert ?u V - {?u} = V" by auto
        with opt have er: "edges_relaxed g (insert ?u V - {?u}) ?s1"
          by (simp add: inv_opt_def edges_relaxed_def)
        from relax_opt [OF wf nn inv1 _ du ns sb er popped_opt [OF inv opt ne unv]]
        obtain s2 where s2: "relax g (insert ?u V) ?d ?u ns ?s1 = Inr s2"
          and inv2: "inv_basic g start (insert ?u V) s2" and opt2: "inv_opt g start (insert ?u V) s2"
          by auto
        from res ne unv False ns s2 have "dijkstra_loop g t (insert ?u V) s2 = Inr s'"
          by (subst (asm) dijkstra_loop.simps) (simp add: Let_def)
        from "1.IH"(2) [OF ne refl refl refl unv False ns s2 wf nn inv2 opt2 this walk]
        show ?thesis .
      qed
    qed
  qed
qed

section \<open>The claims about \<^verbatim>\<open>dijkstra_shortest_path\<close>\<close>

text \<open>
  Claim C3. For every graph and every two of its nodes \<open>start\<close> and \<open>end_node\<close> with no path
  from the first to the second, \<^verbatim>\<open>dijkstra_shortest_path\<close> returns the empty path, the
  cost \<^verbatim>\<open>inf\<close> and empty details, without raising; and when the graph is the one
  \<^verbatim>\<open>find_optimal_route\<close> builds, \<^verbatim>\<open>find_optimal_route\<close> returns the result with
  \<^verbatim>\<open>success = False\<close>, the empty path and the total cost \<^verbatim>\<open>inf\<close>. The weights may have any
  sign.
\<close>

theorem no_path_reported:
  assumes "graph r = Some g" and "wf_graph g"
    and "nx_contains g start" and "nx_contains g end_node"
    and "\<forall>p. \<not> route g start end_node p"
  shows "dijkstra_shortest_path to_float r start end_node = Some (Inr ([], PInf, [])) \<and>
     (\<forall>r0 cf. r = create_enhanced_graph r0 cf 2 \<longrightarrow>
        find_optimal_route to_float r0 start end_node cf =
          Some (Inr [(''success'', PyBool False),
                     (''message'', PyStr ''No path found between start and end points''),
                     (''path'', PyPath []),
                     (''total_cost'', PyFloat PInf),
                     (''path_details'', PyDict [])]))"
proof -
  from dijkstra_result [OF assms(1-4), of to_float] assms(5)
  have "dijkstra_shortest_path to_float r start end_node = Some (Inr ([], PInf, []))"
    by blast
  then show ?thesis
    by (auto simp: find_optimal_route_def)
qed

text \<open>
  The theorem on \<open>islands_router\<close>, from (0,0) on one edge to (50,10) on the other: every
  path from (0,0) stays on the first edge.
\<close>

theorem no_path_reported_witness:
  "dijkstra_shortest_path decimal_float (islands_router\<lparr>graph := Some islands_graph\<rparr>) ''0,0'' ''50,10''
     = Some (Inr ([], PInf, [])) \<and>
   find_optimal_route decimal_float islands_router ''0,0'' ''50,10'' ''distance'' =
     Some (Inr [(''success'', PyBool False),
                (''message'', PyStr ''No path found between start and end points''),
                (''path'', PyPath []),
                (''total_cost'', PyFloat PInf),
                (''path_details'', PyDict [])])"
proof -
  let ?r = "islands_router\<lparr>graph := Some islands_graph\<rparr>"
  have 1: "graph ?r = Some islands_graph" by simp
  have "graph (create_enhanced_graph islands_router ''distance'' 2) = Some islands_graph"
    by (simp add: islands_built)
  then have 2: "wf_graph islands_graph" by (rule wf_create_enhanced_graph)
  have 3: "nx_contains islands_graph ''0,0''" and 4: "nx_contains islands_graph ''50,10''"
    by (simp_all add: islands_graph_def nx_contains_def)
  have edge: "v = ''0,0'' \<or> v = ''0,10''"
    if "nx_get_edge islands_graph u v = Some e" "u = ''0,0'' \<or> u = ''0,10''" for u v e
    using that by (auto simp: islands_graph_def nx_get_edge_def split: if_splits)
  have stay: "v = ''0,0'' \<or> v = ''0,10''" if "walk islands_graph ''0,0'' v c" for v c
    using that by (induction rule: walk.induct) (auto dest: edge)
  have 5: "\<forall>p. \<not> route islands_graph ''0,0'' ''50,10'' p"
  proof (intro allI notI)
    fix p
    assume r: "route islands_graph ''0,0'' ''50,10'' p"
    then obtain c where "path_cost islands_graph p = Some c" by (auto simp: route_def)
    from stay [OF route_walk [OF r this]] show False by simp
  qed
  from no_path_reported [OF 1 2 3 4 5, of decimal_float] islands_built
  show ?thesis by (auto simp del: create_enhanced_graph_def)
qed

text \<open>
  Claim C1. For every graph built by \<^verbatim>\<open>create_enhanced_graph\<close> whose edge weights are all
  \<open>\<ge> 0\<close>, and every two of its nodes \<open>start\<close> and \<open>end_node\<close> joined by some path,
  \<^verbatim>\<open>dijkstra_shortest_path\<close> returns a node sequence that is a path from \<open>start\<close> to
  \<open>end_node\<close>, and a finite cost that is the sum of the edge weights along it and is not
  larger than the cost of any path from \<open>start\<close> to \<open>end_node\<close>.
\<close>

theorem dijkstra_shortest_path_minimal:
  assumes "graph (create_enhanced_graph r0 cf mcs) = Some g"
    and "\<forall>u v e. nx_get_edge g u v = Some e \<longrightarrow> 0 \<le> weight e"
    and "nx_contains g start" and "nx_contains g end_node"
    and "route g start end_node p0"
  shows "\<exists>path c det.
     dijkstra_shortest_path to_float (create_enhanced_graph r0 cf mcs) start end_node =
       Some (Inr (path, Fin c, det)) \<and>
     route g start end_node path \<and> path_cost g path = Some c \<and>
     (\<forall>p c'. route g start end_node p \<longrightarrow> path_cost g p = Some c' \<longrightarrow> c \<le> c')"
proof -
  let ?r = "create_enhanced_graph r0 cf mcs"
  from assms(1) have wf: "wf_graph g" by (rule wf_create_enhanced_graph)
  from assms(2) have nn: "nonneg_weights g" by (simp add: nonneg_weights_def)
  from dijkstra_result [OF assms(1) wf assms(3,4), of to_float]
  obtain st V where st: "dijkstra_loop g end_node {} (init_dstate g start) = Inr st"
    and res: "distances st end_node = Some PInf \<and>
        dijkstra_shortest_path to_float ?r start end_node = Some (Inr ([], PInf, []))
      \<or> (\<exists>c p det. distances st end_node = Some (Fin c) \<and>
            dijkstra_shortest_path to_float ?r start end_node = Some (Inr (p, Fin c, det)) \<and>
            route g start end_node p \<and> path_cost g p = Some c)"
    by blast
  have least: "\<exists>d. distances st end_node = Some (Fin d) \<and> d \<le> c'"
    if "route g start end_node p" "path_cost g p = Some c'" for p c'
    using dijkstra_loop_opt [OF wf nn inv_basic_init [OF assms(3)] inv_opt_init st
        route_walk [OF that]] .
  from assms(5) obtain c0 where "path_cost g p0 = Some c0"
    by (auto simp: route_def)
  from least [OF assms(5) this] res
  obtain c p det where c: "distances st end_node = Some (Fin c)"
    and d: "dijkstra_shortest_path to_float ?r start end_node = Some (Inr (p, Fin c, det))"
    and p: "route g start end_node p" "path_cost g p = Some c"
    by auto
  from least c have "c \<le> c'" if "route g start end_node p'" "path_cost g p' = Some c'" for p' c'
    using that by fastforce
  with d p show ?thesis by blast
qed

text \<open>
  The theorem on the square under \<^verbatim>\<open>'distance'\<close>, from (0,0) to (10,10): the path over
  (0,10) costs 20, so the returned cost is at most 20.
\<close>

theorem dijkstra_shortest_path_minimal_witness:
  "\<exists>path c det.
     dijkstra_shortest_path decimal_float (create_enhanced_graph square_router ''distance'' 2)
       ''0,0'' ''10,10'' = Some (Inr (path, Fin c, det)) \<and>
     route square_graph ''0,0'' ''10,10'' path \<and> path_cost square_graph path = Some c \<and> c \<le> 20"
proof -
  have 1: "graph (create_enhanced_graph square_router ''distance'' 2) = Some square_graph"
    by (simp add: square_built)
  have 2: "\<forall>u v e. nx_get_edge square_graph u v = Some e \<longrightarrow> 0 \<le> weight e"
    by (auto simp: square_graph_def nx_get_edge_def split: if_splits)
  have 3: "nx_contains square_graph ''0,0''" and 4: "nx_contains square_graph ''10,10''"
    by (simp_all add: square_graph_def nx_contains_def)
  have 5: "route square_graph ''0,0'' ''10,10'' [''0,0'', ''0,10'', ''10,10'']"
    and 6: "path_cost square_graph [''0,0'', ''0,10'', ''10,10''] = Some 20"
    by (simp_all add: route_def square_graph_def nx_get_edge_def nx_contains_def)
  from dijkstra_shortest_path_minimal [OF 1 2 3 4 5, of decimal_float] 5 6
  show ?thesis by blast
qed

section \<open>The nearest-node scan and the snapping of end points\<close>

lemma parse_xy_error: "parse_xy to_float s = Inl e \<Longrightarrow> e = ValueError"
  by (auto simp: parse_xy_def split: list.splits option.splits)

lemma node_distances_error: "node_distances to_float x y ns = Inl e \<Longrightarrow> e = ValueError"
  by (induction ns arbitrary: e)
     (auto split: sum.splits prod.splits dest: parse_xy_error)

lemma node_distances_bad:
  "n \<in> set ns \<Longrightarrow> parse_xy to_float n = Inl e \<Longrightarrow> node_distances to_float x y ns = Inl ValueError"
proof (induction ns)
  case Nil
  then show ?case by simp
next
  case (Cons m ns)
  show ?case
  proof (cases "parse_xy to_float m")
    case (Inl e')
    with parse_xy_error [OF Inl] show ?thesis by simp
  next
    case (Inr p)
    with Cons have "node_distances to_float x y ns = Inl ValueError" by auto
    with Inr show ?thesis by (simp split: prod.splits)
  qed
qed

lemma node_distances_Inr:
  "node_distances to_float x y ns = Inr ds \<Longrightarrow> ds = map (\<lambda>n. (n, node_dist to_float x y n)) ns"
  by (induction ns arbitrary: ds) (auto simp: node_dist_def split: sum.splits prod.splits)


lemma find_closest_nodes_bad:
  assumes "graph r = Some g" and "n \<in> set (nx_nodes g)" and "parse_xy to_float n = Inl e"
  shows "find_closest_nodes to_float r q k = Inl ValueError"
proof (cases "parse_xy to_float q")
  case (Inl e')
  with parse_xy_error [OF Inl] show ?thesis by (simp add: find_closest_nodes_def)
next
  case (Inr p)
  obtain x y where "p = (x, y)" by (cases p)
  with Inr assms(1) node_distances_bad [OF assms(2,3), of x y] show ?thesis
    by (simp add: find_closest_nodes_def)
qed


lemma find_closest_nodes_members:
  assumes "graph r = Some g" and "find_closest_nodes to_float r q k = Inr res" and "c \<in> set res"
  shows "fst c \<in> set (nx_nodes g)"
proof -
  from assms(1,2) obtain x y ds where ds: "node_distances to_float x y (nx_nodes g) = Inr ds"
    and res: "res = py_prefix k (sort_key snd ds)"
    by (auto simp: find_closest_nodes_def split: sum.splits prod.splits)
  from assms(3) res have "c \<in> set ds"
    by (auto simp: py_prefix_def dest: in_set_takeD split: if_splits)
  with node_distances_Inr [OF ds] show ?thesis by auto
qed

lemma snap_in_graph:
  assumes "graph r = Some g" and "snap_to_graph to_float r g p = Inr s"
  shows "nx_contains g s"
proof (cases "nx_contains g p")
  case True
  with assms(2) show ?thesis by (simp add: snap_to_graph_def)
next
  case False
  with assms(2) obtain c cs where c: "find_closest_nodes to_float r p 1 = Inr (c # cs)" and "s = fst c"
    by (auto simp: snap_to_graph_def split: sum.splits list.splits)
  with find_closest_nodes_members [OF assms(1) c, of c] show ?thesis
    by (simp add: nx_contains_iff)
qed

lemma snap_node: "nx_contains g p \<Longrightarrow> snap_to_graph to_float r g p = Inr p"
  by (simp add: snap_to_graph_def)

lemma dijkstra_snapped:
  assumes "graph r = Some g"
  shows "dijkstra_shortest_path to_float r a b =
     (case snap_to_graph to_float r g a of
        Inl e \<Rightarrow> Some (Inl e)
      | Inr a' \<Rightarrow>
          (case snap_to_graph to_float r g b of
             Inl e \<Rightarrow> Some (Inl e)
           | Inr b' \<Rightarrow> dijkstra_shortest_path to_float r a' b'))"
proof (cases "snap_to_graph to_float r g a")
  case (Inl e)
  with assms show ?thesis by (simp add: dijkstra_shortest_path_def)
next
  case a: (Inr a')
  show ?thesis
  proof (cases "snap_to_graph to_float r g b")
    case (Inl e)
    with a assms show ?thesis by (simp add: dijkstra_shortest_path_def)
  next
    case b: (Inr b')
    from snap_in_graph [OF assms a] snap_in_graph [OF assms b]
    have "snap_to_graph to_float r g a' = Inr a'" "snap_to_graph to_float r g b' = Inr b'"
      by (simp_all add: snap_node)
    with a b assms show ?thesis by (simp add: dijkstra_shortest_path_def)
  qed
qed


section \<open>The claims about \<^verbatim>\<open>find_closest_nodes\<close> and the snapping of end points\<close>



text \<open>
  Claim C8 as stated fails: \<^verbatim>\<open>create_enhanced_graph\<close> never parses a node key. From the
  one row of \<open>bad_key_router\<close> it builds a graph with the node \<^verbatim>\<open>'north gate'\<close>, and the
  fault is raised afterwards, by the scan of \<^verbatim>\<open>find_closest_nodes\<close>.
\<close>

theorem malformed_key_accepted_counterexample:
  "graph (create_enhanced_graph bad_key_router ''distance'' 2) = Some bad_key_graph \<and>
   nx_contains bad_key_graph ''north gate'' \<and>
   parse_xy decimal_float ''north gate'' = Inl ValueError \<and>
   find_closest_nodes decimal_float (create_enhanced_graph bad_key_router ''distance'' 2) ''1,1'' 1
     = Inl ValueError"
  by (simp add: bad_key_built bad_key_graph_def nx_contains_def nx_nodes_def parse_xy_def
        decimal_float_def find_closest_nodes_def)

text \<open>
  Claim C8, as amended. \<^verbatim>\<open>create_enhanced_graph\<close> does not reject a node key that cannot
  be parsed into two numbers: for every row of \<^verbatim>\<open>graph_data\<close> with such an endpoint and
  both endpoints in the selected component, the graph is built and both endpoints are
  nodes of it. The fault surfaces later, in the nearest-node scan: every call of
  \<^verbatim>\<open>find_closest_nodes\<close> on the built graph raises \<^verbatim>\<open>ValueError\<close>, and so does every call of
  \<^verbatim>\<open>dijkstra_shortest_path\<close> whose start or end is not an exact node. The search loop
  parses no key: between two exact nodes the result of \<^verbatim>\<open>dijkstra_shortest_path\<close> does
  not depend on how strings are parsed.
\<close>

theorem malformed_key_surfaces_in_scan:
  assumes comps: "filter (\<lambda>comp. mcs \<le> int (fcard comp)) (connected_components r) = c # cs"
    and row: "row \<in> set (graph_data r)"
    and inside: "from_node row |\<in>| max_by_len c cs" "to_node row |\<in>| max_by_len c cs"
    and bad: "parse_xy to_float (from_node row) = Inl e \<or> parse_xy to_float (to_node row) = Inl e"
  shows "\<exists>g. graph (create_enhanced_graph r cf mcs) = Some g \<and>
           nx_contains g (from_node row) \<and> nx_contains g (to_node row) \<and>
           (\<forall>q k. find_closest_nodes to_float (create_enhanced_graph r cf mcs) q k = Inl ValueError) \<and>
           (\<forall>a b. \<not> nx_contains g a \<or> \<not> nx_contains g b \<longrightarrow>
              dijkstra_shortest_path to_float (create_enhanced_graph r cf mcs) a b = Some (Inl ValueError)) \<and>
           (\<forall>a b to_float'. nx_contains g a \<and> nx_contains g b \<longrightarrow>
              dijkstra_shortest_path to_float (create_enhanced_graph r cf mcs) a b =
              dijkstra_shortest_path to_float' (create_enhanced_graph r cf mcs) a b)"
proof -
  let ?r = "create_enhanced_graph r cf mcs"
  let ?g = "foldl (add_row (safety_weights r) (max_by_len c cs) cf) [] (graph_data r)"
  from comps have g: "graph ?r = Some ?g" by (simp add: graph_create_enhanced_graph)
  from inside have comp: "in_component (max_by_len c cs) row" by (simp add: in_component_def)
  have nodes: "from_node row \<in> set (nx_nodes ?g)" "to_node row \<in> set (nx_nodes ?g)"
    by (rule nodes_foldl_row [OF row comp])+
  from bad nodes obtain n where n: "n \<in> set (nx_nodes ?g)" "parse_xy to_float n = Inl e" by blast
  have scan: "find_closest_nodes to_float ?r q k = Inl ValueError" for q k
    by (rule find_closest_nodes_bad [OF g n])
  have snap: "snap_to_graph to_float ?r ?g a = Inl ValueError" if "\<not> nx_contains ?g a" for a
    using that by (simp add: snap_to_graph_def scan)
  have off: "dijkstra_shortest_path to_float ?r a b = Some (Inl ValueError)"
    if "\<not> nx_contains ?g a \<or> \<not> nx_contains ?g b" for a b
  proof (cases "nx_contains ?g a")
    case False
    then show ?thesis by (simp add: dijkstra_snapped [OF g] snap)
  next
    case True
    with that have "\<not> nx_contains ?g b" by simp
    with True show ?thesis by (simp add: dijkstra_snapped [OF g, of to_float a b] snap snap_node)
  qed
  have on: "dijkstra_shortest_path to_float ?r a b = dijkstra_shortest_path to_float' ?r a b"
    if "nx_contains ?g a \<and> nx_contains ?g b" for a b to_float'
    using that by (simp add: dijkstra_on_nodes [OF g])
  from g nodes scan off on show ?thesis
    by (simp only: nx_contains_iff) blast
qed

text \<open>
  The theorem at the row of \<open>bad_key_router\<close>: the scan raises for the query (0,1), and
  so does the search from (0,1), which is not a node.
\<close>

theorem malformed_key_surfaces_in_scan_witness:
  "nx_contains bad_key_graph ''north gate'' \<and>
   find_closest_nodes decimal_float (create_enhanced_graph bad_key_router ''distance'' 2) ''0,1'' 3
     = Inl ValueError \<and>
   dijkstra_shortest_path decimal_float (create_enhanced_graph bad_key_router ''distance'' 2) ''0,1'' ''0,0''
     = Some (Inl ValueError)"
proof -
  let ?row = "\<lparr>road_segment_id = ''1'', from_node = ''0,0'', to_node = ''north gate'', cost = 10\<rparr>"
  have 1: "filter (\<lambda>comp. 2 \<le> int (fcard comp)) (connected_components bad_key_router)
      = [{|''0,0'', ''north gate''|}]"
    by (simp add: bad_key_router_def fcard_finsert_if)
  have 2: "?row \<in> set (graph_data bad_key_router)" by (simp add: bad_key_router_def)
  have 3: "from_node ?row |\<in>| max_by_len {|''0,0'', ''north gate''|} []"
    "to_node ?row |\<in>| max_by_len {|''0,0'', ''north gate''|} []"
    by simp_all
  have 4: "parse_xy decimal_float (from_node ?row) = Inl ValueError \<or>
      parse_xy decimal_float (to_node ?row) = Inl ValueError"
    by (simp add: parse_xy_def)
  have 5: "\<not> nx_contains bad_key_graph ''0,1''"
    by (simp add: bad_key_graph_def nx_contains_def nx_nodes_def)
  from malformed_key_surfaces_in_scan [OF 1 2 3 4, of "''distance''"] 5
  show ?thesis by (simp add: bad_key_built)
qed
end
